theory Spec2Isabelle
  imports Main "HOL-Library.Signed_Division"
begin

section \<open>Log levels\<close>

text \<open>
  \<^verbatim>\<open>enum class LogLevel { TRACE, DEBUG, INFO, WARN, ERR, FATAL, OFF, INHERIT,
  DEFAULT = WARN, ALL = TRACE }\<close>. The comparison operators of a scoped enumeration
  compare the underlying integers, given by \<open>level_num\<close>.
\<close>

datatype LogLevel = TRACE | DEBUG | INFO | WARN | ERR | FATAL | OFF | INHERIT

abbreviation LogLevel_DEFAULT :: LogLevel where "LogLevel_DEFAULT \<equiv> WARN"
abbreviation LogLevel_ALL :: LogLevel where "LogLevel_ALL \<equiv> TRACE"

fun level_num :: "LogLevel \<Rightarrow> nat" where
  "level_num TRACE = 0"
| "level_num DEBUG = 1"
| "level_num INFO = 2"
| "level_num WARN = 3"
| "level_num ERR = 4"
| "level_num FATAL = 5"
| "level_num OFF = 6"
| "level_num INHERIT = 7"

definition level_less :: "LogLevel \<Rightarrow> LogLevel \<Rightarrow> bool" where
  "level_less a b = (level_num a < level_num b)"

definition level_ge :: "LogLevel \<Rightarrow> LogLevel \<Rightarrow> bool" where
  "level_ge a b = (level_num a \<ge> level_num b)"

definition level_le :: "LogLevel \<Rightarrow> LogLevel \<Rightarrow> bool" where
  "level_le a b = (level_num a \<le> level_num b)"

section \<open>Errors\<close>

text \<open>
  The ways in which the modelled code leaves defined behaviour: dereferencing a null
  pointer (\<open>parent->getLevel()\<close> on a logger without parent, \<open>strrchr(..) + 1\<close> on a
  null result) and following an address that denotes no object.
\<close>

datatype error = NullPointer | Dangling

section \<open>Output streams\<close>

text \<open>
  The part of \<^verbatim>\<open>std::basic_ostream\<close> the library uses: the characters written so far,
  the field width (reset to 0 by every formatted output), the fill character and the
  adjustment flags (both sticky). A freshly constructed string stream has width 0, fill
  \<open>' '\<close> and no adjustment flag set.
\<close>

datatype adjust = adj_none | adj_left | adj_right

record ostream =
  buf :: string
  width :: int
  fill :: char
  adjustfield :: adjust

definition stringstream :: ostream where
  "stringstream = \<lparr>buf = [], width = 0, fill = CHR '' '', adjustfield = adj_none\<rparr>"

definition str :: "ostream \<Rightarrow> string" where
  "str os = buf os"

definition setw :: "int \<Rightarrow> ostream \<Rightarrow> ostream" where
  "setw w os = os\<lparr>width := w\<rparr>"

definition setfill :: "char \<Rightarrow> ostream \<Rightarrow> ostream" where
  "setfill c os = os\<lparr>fill := c\<rparr>"

definition left :: "ostream \<Rightarrow> ostream" where
  "left os = os\<lparr>adjustfield := adj_left\<rparr>"

definition right :: "ostream \<Rightarrow> ostream" where
  "right os = os\<lparr>adjustfield := adj_right\<rparr>"

text \<open>
  Formatted output of a character sequence: when the sequence is shorter than the field
  width, fill characters are added after it if the adjustment is \<open>left\<close> and before it
  otherwise; the sequence is never cut; the width is reset.
\<close>

definition padding :: "ostream \<Rightarrow> string \<Rightarrow> string" where
  "padding os v = replicate (nat (width os - int (length v))) (fill os)"

definition put :: "string \<Rightarrow> ostream \<Rightarrow> ostream" where
  "put v os =
     os\<lparr>buf := buf os @ (if adjustfield os = adj_left then v @ padding os v
                          else padding os v @ v),
        width := 0\<rparr>"

text \<open>Decimal digits of an unsigned and of a signed integer.\<close>

definition digit :: "nat \<Rightarrow> char" where
  "digit d = ''0123456789'' ! d"

function show_nat :: "nat \<Rightarrow> string" where
  "show_nat n = (if n < 10 then [digit n] else show_nat (n div 10) @ [digit (n mod 10)])"
  by pat_completeness auto
termination
  by (relation "measure (\<lambda>n. n)") auto

declare show_nat.simps [simp del]

definition show_int :: "int \<Rightarrow> string" where
  "show_int i = (if i < 0 then CHR ''-'' # show_nat (nat (- i)) else show_nat (nat i))"

text \<open>\<^verbatim>\<open>operator<<(std::basic_ostream&, LogLevel)\<close> of impl/logging.h.\<close>

fun level_name :: "LogLevel \<Rightarrow> string" where
  "level_name TRACE = ''TRACE''"
| "level_name DEBUG = ''DEBUG''"
| "level_name INFO = ''INFO''"
| "level_name WARN = ''WARN''"
| "level_name ERR = ''ERROR''"
| "level_name FATAL = ''FATAL''"
| "level_name OFF = ''OFF''"
| "level_name INHERIT = ''???''"

definition put_level :: "LogLevel \<Rightarrow> ostream \<Rightarrow> ostream" where
  "put_level l os = put (level_name l) os"

text \<open>
  The values the library and its examples stream with \<open><<\<close>: character strings,
  characters, integers, levels, and the width and fill manipulators (objects); and the
  manipulators that are functions on streams.
\<close>

datatype streamable =
  VStr string | VChar char | VInt int | VNat nat | VLevel LogLevel
  | VSetw int | VSetfill char

datatype manipulator = Endl | Flush | MLeft | MRight

fun put_value :: "streamable \<Rightarrow> ostream \<Rightarrow> ostream" where
  "put_value (VStr v) os = put v os"
| "put_value (VChar c) os = put [c] os"
| "put_value (VInt i) os = put (show_int i) os"
| "put_value (VNat n) os = put (show_nat n) os"
| "put_value (VLevel l) os = put_level l os"
| "put_value (VSetw w) os = setw w os"
| "put_value (VSetfill c) os = setfill c os"

fun put_manipulator :: "manipulator \<Rightarrow> ostream \<Rightarrow> ostream" where
  "put_manipulator Endl os = os\<lparr>buf := buf os @ [CHR 0x0A]\<rparr>"
| "put_manipulator Flush os = os"
| "put_manipulator MLeft os = left os"
| "put_manipulator MRight os = right os"

section \<open>Platform\<close>

text \<open>
  What the code leaves to the platform: the path separator (\<^verbatim>\<open>#ifdef _WIN32\<close>), the
  rendering of \<^verbatim>\<open>std::put_time(localtime(..), format)\<close>, the number of ticks of
  \<^verbatim>\<open>std::chrono::system_clock\<close> in a millisecond, and the states in which the move
  constructors of a string stream and of a string leave their sources.
\<close>

record platform =
  win32 :: bool
  put_time :: "string \<Rightarrow> int \<Rightarrow> string"
  ticks_per_ms :: int
  moved_from :: "ostream \<Rightarrow> ostream"
  moved_from_string :: "string \<Rightarrow> string"

definition separator :: "platform \<Rightarrow> char" where
  "separator P = (if win32 P then CHR 0x5C else CHR ''/'')"

section \<open>Contexts and entries (context.h)\<close>

record log_context =
  filename :: string
  line :: nat
  funcname :: string

definition log_context0 :: log_context where
  "log_context0 = \<lparr>filename = [], line = 0, funcname = []\<rparr>"

text \<open>
  An entry extends a context; \<open>logger\<close> is the address of the logger it was submitted
  to, \<open>timestamp\<close> a reading of the system clock in ticks.
\<close>

record basic_log_entry = log_context +
  timestamp :: int
  logger :: nat
  entry_level :: LogLevel
  msg :: string

text \<open>The two constructors; \<open>now\<close> is what \<^verbatim>\<open>system_clock::now()\<close> returns.\<close>

definition basic_log_entry3 :: "int \<Rightarrow> log_context \<Rightarrow> nat \<Rightarrow> LogLevel \<Rightarrow> basic_log_entry" where
  "basic_log_entry3 now context lg lvl =
     \<lparr>filename = filename context, line = line context, funcname = funcname context,
      timestamp = now, logger = lg, entry_level = lvl, msg = []\<rparr>"

definition basic_log_entry4 ::
  "int \<Rightarrow> log_context \<Rightarrow> nat \<Rightarrow> LogLevel \<Rightarrow> string \<Rightarrow> basic_log_entry" where
  "basic_log_entry4 now context lg lvl m =
     \<lparr>filename = filename context, line = line context, funcname = funcname context,
      timestamp = now, logger = lg, entry_level = lvl, msg = m\<rparr>"

section \<open>Loggers, sinks and the process state\<close>

text \<open>
  Loggers and sinks are shared objects, handed out by pointer: the state holds a store
  of each, and a pointer is an index into the store (an object is never freed; a new one
  is appended). \<open>parent\<close> is \<open>None\<close> for the null pointer.
\<close>

record basic_logger =
  parent :: "nat option"
  name :: string
  level :: LogLevel
  sinks :: "nat list"
  additive :: bool

text \<open>formatter.h: the fields, the justifications, the elements of a template.\<close>

datatype Field =
  FileName | FilePath | Line | Function | LoggerName | Message | LogLevel | WallTime

datatype Justification = LEFT | RIGHT

datatype element =
  basic_field Field int Justification char
  | basic_time_field string
  | other streamable

datatype formatter = basic_formatter | basic_template_formatter "element list"

text \<open>
  sink.h: a stream sink has a formatter, a level and an output stream; \<open>os\<close> records
  the strings written to the stream, one for each write, oldest first (the content of
  the stream is their concatenation).
\<close>

record basic_stream_sink =
  formatter :: formatter
  sink_level :: LogLevel
  os :: "string list"

text \<open>
  The state of the process: the two stores, the function-local statics \<open>root_logger\<close>
  (of \<open>getRootLogger\<close>), \<open>loggers\<close> (of \<open>detail::GetLoggers\<close>) and \<open>startTime\<close> (of
  \<open>detail::GetStartTime\<close>), a static being \<open>None\<close> until its first use, and the reading
  of the system clock.
\<close>

record state =
  heap :: "basic_logger list"
  sink_heap :: "basic_stream_sink list"
  root_logger :: "nat option"
  loggers :: "string \<rightharpoonup> nat"
  startTime :: "int option"
  clock :: int

definition state0 :: state where
  "state0 = \<lparr>heap = [], sink_heap = [], root_logger = None, loggers = Map.empty,
             startTime = None, clock = 0\<rparr>"

definition deref :: "'a list \<Rightarrow> nat \<Rightarrow> 'a option" where
  "deref h a = (if a < length h then Some (h ! a) else None)"

section \<open>Formatters (impl/formatter.h)\<close>

definition GetStartTime :: "state \<Rightarrow> int \<times> state" where
  "GetStartTime s =
     (case startTime s of
        Some t \<Rightarrow> (t, s)
      | None \<Rightarrow> (clock s, s\<lparr>startTime := Some (clock s)\<rparr>))"

text \<open>
  \<open>basic_formatter::format\<close>:
  \<^verbatim>\<open>stream << context.level << " - " << context.msg << '\n'\<close> on a new string stream.
\<close>

definition basic_formatter_format :: "basic_log_entry \<Rightarrow> string" where
  "basic_formatter_format context =
     str (put [CHR 0x0A] (put (msg context) (put '' - ''
       (put_level (entry_level context) stringstream))))"

text \<open>
  \<open>std::string::rfind(c)\<close> and \<open>strrchr(s, c)\<close>: the index of the last occurrence of
  \<open>c\<close>, \<open>None\<close> for \<open>npos\<close> and for the null pointer.
\<close>

fun rfind :: "string \<Rightarrow> char \<Rightarrow> nat option" where
  "rfind [] c = None"
| "rfind (x # xs) c =
     (case rfind xs c of
        Some n \<Rightarrow> Some (Suc n)
      | None \<Rightarrow> if x = c then Some 0 else None)"

definition strrchr :: "string \<Rightarrow> char \<Rightarrow> nat option" where
  "strrchr s c = rfind s c"

text \<open>
  \<open>basic_field::stream\<close>. The first switch has no \<open>break\<close>: for \<open>LEFT\<close> the stream
  executes \<open>os << std::left\<close> and then falls through to \<open>os << std::right\<close>.
\<close>

fun justify :: "Justification \<Rightarrow> ostream \<Rightarrow> ostream" where
  "justify LEFT out = right (left out)"
| "justify RIGHT out = right out"

fun basic_field_stream ::
  "platform \<Rightarrow> Field \<Rightarrow> int \<Rightarrow> Justification \<Rightarrow> char \<Rightarrow> ostream \<Rightarrow> basic_log_entry \<Rightarrow> state
    \<Rightarrow> error + (ostream \<times> state)" where
  "basic_field_stream P FileName W j F out context s =
     (case strrchr (filename context) (separator P) of
        None \<Rightarrow> Inl NullPointer
      | Some n \<Rightarrow>
          Inr (put (drop (n + 1) (filename context)) (justify j (setfill F (setw W out))), s))"
| "basic_field_stream P FilePath W j F out context s =
     Inr (put (filename context) (justify j (setfill F (setw W out))), s)"
| "basic_field_stream P Line W j F out context s =
     Inr (put (show_nat (line context)) (justify j (setfill F (setw W out))), s)"
| "basic_field_stream P Function W j F out context s =
     Inr (put (funcname context) (justify j (setfill F (setw W out))), s)"
| "basic_field_stream P LoggerName W j F out context s =
     (case deref (heap s) (logger context) of
        None \<Rightarrow> Inl Dangling
      | Some lg \<Rightarrow> Inr (put (name lg) (justify j (setfill F (setw W out))), s))"
| "basic_field_stream P Message W j F out context s =
     Inr (put (msg context) (justify j (setfill F (setw W out))), s)"
| "basic_field_stream P LogLevel W j F out context s =
     Inr (put_level (entry_level context) (justify j (setfill F (setw W out))), s)"
| "basic_field_stream P WallTime W j F out context s =
     (case GetStartTime s of
        (start, s1) \<Rightarrow>
          Inr (put (show_int ((timestamp context - start) sdiv ticks_per_ms P))
                 (justify j (setfill F (setw W out))), s1))"

definition basic_time_field_stream ::
  "platform \<Rightarrow> string \<Rightarrow> ostream \<Rightarrow> basic_log_entry \<Rightarrow> ostream" where
  "basic_time_field_stream P formatStr out context =
     out\<lparr>buf := buf out @ put_time P formatStr (timestamp context)\<rparr>"

text \<open>The three overloads of \<open>formatElement\<close>, and \<open>formatTuple\<close> over the elements in order.\<close>

fun formatElement ::
  "platform \<Rightarrow> element \<Rightarrow> ostream \<Rightarrow> basic_log_entry \<Rightarrow> state \<Rightarrow> error + (ostream \<times> state)" where
  "formatElement P (basic_field f W j F) out context s = basic_field_stream P f W j F out context s"
| "formatElement P (basic_time_field formatStr) out context s =
     Inr (basic_time_field_stream P formatStr out context, s)"
| "formatElement P (other t) out context s = Inr (put_value t out, s)"

fun formatTuple ::
  "platform \<Rightarrow> element list \<Rightarrow> basic_log_entry \<Rightarrow> ostream \<Rightarrow> state \<Rightarrow> error + (ostream \<times> state)" where
  "formatTuple P [] context out s = Inr (out, s)"
| "formatTuple P (t # ts) context out s =
     (case formatElement P t out context s of
        Inl err \<Rightarrow> Inl err
      | Inr (out1, s1) \<Rightarrow> formatTuple P ts context out1 s1)"

definition basic_template_formatter_format ::
  "platform \<Rightarrow> element list \<Rightarrow> basic_log_entry \<Rightarrow> state \<Rightarrow> error + (string \<times> state)" where
  "basic_template_formatter_format P formatters context s =
     (case formatTuple P formatters context stringstream s of
        Inl err \<Rightarrow> Inl err
      | Inr (stream, s1) \<Rightarrow> Inr (str stream, s1))"

text \<open>The virtual call \<open>format\<close>, reached through \<open>operator()\<close>.\<close>

fun format :: "platform \<Rightarrow> formatter \<Rightarrow> basic_log_entry \<Rightarrow> state \<Rightarrow> error + (string \<times> state)" where
  "format P basic_formatter context s = Inr (basic_formatter_format context, s)"
| "format P (basic_template_formatter formatters) context s =
     basic_template_formatter_format P formatters context s"

section \<open>Loggers (logger.h, impl/logger.h)\<close>

text \<open>The two private constructors.\<close>

definition basic_logger0 :: basic_logger where
  "basic_logger0 =
     \<lparr>parent = None, name = [], level = LogLevel_DEFAULT, sinks = [], additive = True\<rparr>"

definition basic_logger2 :: "string \<Rightarrow> nat option \<Rightarrow> basic_logger" where
  "basic_logger2 nm p =
     \<lparr>parent = p, name = nm, level = INHERIT, sinks = [], additive = True\<rparr>"

text \<open>The member functions that read or change only the object they are called on.\<close>

definition addSink :: "nat \<Rightarrow> basic_logger \<Rightarrow> basic_logger" where
  "addSink sink lg = lg\<lparr>sinks := sinks lg @ [sink]\<rparr>"

definition removeSink :: "nat \<Rightarrow> basic_logger \<Rightarrow> basic_logger" where
  "removeSink sink lg =
     (if sink \<in> set (sinks lg) then lg\<lparr>sinks := remove1 sink (sinks lg)\<rparr> else lg)"

definition setLevel :: "LogLevel \<Rightarrow> basic_logger \<Rightarrow> basic_logger" where
  "setLevel l lg = (if l = INHERIT \<and> parent lg = None then lg else lg\<lparr>level := l\<rparr>)"

definition getName :: "basic_logger \<Rightarrow> string" where
  "getName lg = name lg"

definition getAdditive :: "basic_logger \<Rightarrow> bool" where
  "getAdditive lg = additive lg"

definition setAdditive :: "bool \<Rightarrow> basic_logger \<Rightarrow> basic_logger" where
  "setAdditive b lg = lg\<lparr>additive := b\<rparr>"

text \<open>Calling such a member function through a pointer.\<close>

definition invoke :: "(basic_logger \<Rightarrow> basic_logger) \<Rightarrow> nat \<Rightarrow> state \<Rightarrow> error + state" where
  "invoke f a s =
     (case deref (heap s) a of
        None \<Rightarrow> Inl Dangling
      | Some lg \<Rightarrow> Inr (s\<lparr>heap := (heap s)[a := f lg]\<rparr>))"

text \<open>
  \<open>getLevel\<close> follows the parent pointers: \<open>Some (Inr l)\<close> is the level returned,
  \<open>Some (Inl e)\<close> undefined behaviour, \<open>None\<close> a call that does not return.
\<close>

partial_function (option) getLevel :: "nat \<Rightarrow> state \<Rightarrow> (error + LogLevel) option" where
  "getLevel a s =
     (case deref (heap s) a of
        None \<Rightarrow> Some (Inl Dangling)
      | Some lg \<Rightarrow>
          if level lg = INHERIT
          then (case parent lg of
                  None \<Rightarrow> Some (Inl NullPointer)
                | Some p \<Rightarrow> getLevel p s)
          else Some (Inr (level lg)))"

text \<open>\<open>new basic_logger(..)\<close>: the object is appended to the store.\<close>

definition new_logger :: "basic_logger \<Rightarrow> state \<Rightarrow> nat \<times> state" where
  "new_logger lg s = (length (heap s), s\<lparr>heap := heap s @ [lg]\<rparr>)"

definition getRootLogger :: "state \<Rightarrow> nat \<times> state" where
  "getRootLogger s =
     (case root_logger s of
        Some r \<Rightarrow> (r, s)
      | None \<Rightarrow>
          (case new_logger basic_logger0 s of
             (r, s1) \<Rightarrow> (r, s1\<lparr>root_logger := Some r\<rparr>)))"

text \<open>\<open>std::map::emplace\<close> inserts only when the key is absent.\<close>

definition emplace :: "string \<Rightarrow> nat \<Rightarrow> (string \<rightharpoonup> nat) \<Rightarrow> (string \<rightharpoonup> nat)" where
  "emplace k v m = (if m k = None then m(k \<mapsto> v) else m)"

lemma rfind_less: "rfind xs c = Some n \<Longrightarrow> n < length xs"
  by (induction xs arbitrary: n) (auto split: option.splits if_splits)

function getLogger :: "string \<Rightarrow> state \<Rightarrow> nat \<times> state" where
  "getLogger nm s =
     (if length nm = 0 then getRootLogger s
      else
        (case loggers s nm of
           Some it \<Rightarrow> (it, s)
         | None \<Rightarrow>
             (case (case rfind nm CHR ''.'' of
                      None \<Rightarrow> getRootLogger s
                    | Some n \<Rightarrow> getLogger (take n nm) s) of
                (p, s1) \<Rightarrow>
                  (case new_logger (basic_logger2 nm (Some p)) s1 of
                     (newLogger, s2) \<Rightarrow>
                       (newLogger, s2\<lparr>loggers := emplace nm newLogger (loggers s2)\<rparr>)))))"
  by pat_completeness auto
termination
  by (relation "measure (\<lambda>(nm, s). length nm)") (auto dest: rfind_less)

declare getLogger.simps [simp del]

section \<open>Sinks (sink.h)\<close>

text \<open>
  \<open>basic_stream_sink::create\<close>, from an output stream or from a file name: a new sink
  with the default formatter and level \<open>ALL\<close>.
\<close>

definition create :: "state \<Rightarrow> nat \<times> state" where
  "create s =
     (length (sink_heap s),
      s\<lparr>sink_heap := sink_heap s @
           [\<lparr>formatter = basic_formatter, sink_level = LogLevel_ALL, os = []\<rparr>]\<rparr>)"

definition getFormatter :: "basic_stream_sink \<Rightarrow> formatter" where
  "getFormatter sink = formatter sink"

definition setFormatter :: "formatter \<Rightarrow> basic_stream_sink \<Rightarrow> basic_stream_sink" where
  "setFormatter f sink = sink\<lparr>formatter := f\<rparr>"

definition sink_getLevel :: "basic_stream_sink \<Rightarrow> LogLevel" where
  "sink_getLevel sink = sink_level sink"

definition sink_setLevel :: "LogLevel \<Rightarrow> basic_stream_sink \<Rightarrow> basic_stream_sink" where
  "sink_setLevel l sink = sink\<lparr>sink_level := l\<rparr>"

definition sink_invoke ::
  "(basic_stream_sink \<Rightarrow> basic_stream_sink) \<Rightarrow> nat \<Rightarrow> state \<Rightarrow> error + state" where
  "sink_invoke f k s =
     (case deref (sink_heap s) k of
        None \<Rightarrow> Inl Dangling
      | Some sink \<Rightarrow> Inr (s\<lparr>sink_heap := (sink_heap s)[k := f sink]\<rparr>))"

definition formatMessage ::
  "platform \<Rightarrow> basic_stream_sink \<Rightarrow> basic_log_entry \<Rightarrow> state \<Rightarrow> error + (string \<times> state)" where
  "formatMessage P sink context s = format P (formatter sink) context s"

text \<open>
  \<open>basic_stream_sink::log\<close>, called through the pointer \<open>k\<close>:
  \<^verbatim>\<open>if (context.level >= this->level) *os << this->formatMessage(context) << std::flush\<close>.
\<close>

definition sink_log :: "platform \<Rightarrow> basic_log_entry \<Rightarrow> nat \<Rightarrow> state \<Rightarrow> error + state" where
  "sink_log P context k s =
     (case deref (sink_heap s) k of
        None \<Rightarrow> Inl Dangling
      | Some sink \<Rightarrow>
          if level_ge (entry_level context) (sink_level sink)
          then (case formatMessage P sink context s of
                  Inl err \<Rightarrow> Inl err
                | Inr (text, s1) \<Rightarrow>
                    Inr (s1\<lparr>sink_heap := (sink_heap s1)[k := sink\<lparr>os := os sink @ [text]\<rparr>]\<rparr>))
          else Inr s)"

section \<open>Emission (impl/logger.h)\<close>

text \<open>The loop \<^verbatim>\<open>for (auto& sink: sinks) sink->log(entry)\<close>.\<close>

fun log_sinks :: "platform \<Rightarrow> basic_log_entry \<Rightarrow> nat list \<Rightarrow> state \<Rightarrow> error + state" where
  "log_sinks P entry [] s = Inr s"
| "log_sinks P entry (k # ks) s =
     (case sink_log P entry k s of
        Inl err \<Rightarrow> Inl err
      | Inr s1 \<Rightarrow> log_sinks P entry ks s1)"

partial_function (option) logEntry ::
  "platform \<Rightarrow> basic_log_entry \<Rightarrow> nat \<Rightarrow> state \<Rightarrow> (error + state) option" where
  "logEntry P entry a s =
     (case deref (heap s) a of
        None \<Rightarrow> Some (Inl Dangling)
      | Some lg \<Rightarrow>
          (case log_sinks P entry (sinks lg) s of
             Inl err \<Rightarrow> Some (Inl err)
           | Inr s1 \<Rightarrow>
               if additive lg
               then (case parent lg of
                       None \<Rightarrow> Some (Inr s1)
                     | Some p \<Rightarrow> logEntry P entry p s1)
               else Some (Inr s1)))"

text \<open>\<open>basic_logger::log(level, msg, context)\<close>.\<close>

definition log ::
  "platform \<Rightarrow> LogLevel \<Rightarrow> string \<Rightarrow> log_context \<Rightarrow> nat \<Rightarrow> state \<Rightarrow> (error + state) option" where
  "log P lvl m context a s =
     (case getLevel a s of
        None \<Rightarrow> None
      | Some (Inl err) \<Rightarrow> Some (Inl err)
      | Some (Inr l) \<Rightarrow>
          if level_less lvl l then Some (Inr s)
          else logEntry P (basic_log_entry4 (clock s) context a lvl m) a s)"

section \<open>Log streams\<close>

record basic_log_stream =
  entry :: basic_log_entry
  stream :: ostream

text \<open>
  \<open>basic_logger::log(level, context)\<close>, which returns a stream; the stream returned is
  constructed in place (no move constructor runs on the way to the caller).
\<close>

definition log_stream :: "LogLevel \<Rightarrow> log_context \<Rightarrow> nat \<Rightarrow> state \<Rightarrow> basic_log_stream" where
  "log_stream lvl context a s =
     \<lparr>entry = basic_log_entry3 (clock s) context a lvl, stream = stringstream\<rparr>"

text \<open>The two \<open>operator<<\<close> on a log stream.\<close>

definition shift :: "streamable \<Rightarrow> basic_log_stream \<Rightarrow> basic_log_stream" where
  "shift val ls = ls\<lparr>stream := put_value val (stream ls)\<rparr>"

definition shift_manipulator :: "manipulator \<Rightarrow> basic_log_stream \<Rightarrow> basic_log_stream" where
  "shift_manipulator F ls = ls\<lparr>stream := put_manipulator F (stream ls)\<rparr>"

text \<open>
  The destructor: \<^verbatim>\<open>entry.msg = stream.str(); entry.logger->logEntry(entry)\<close>.
\<close>

definition destroy :: "platform \<Rightarrow> basic_log_stream \<Rightarrow> state \<Rightarrow> (error + state) option" where
  "destroy P ls s =
     logEntry P ((entry ls)\<lparr>msg := str (stream ls)\<rparr>) (logger (entry ls)) s"

text \<open>
  The move constructor is the defaulted one: it moves the members one by one. It returns
  the new stream and the state in which it leaves its source, whose destructor still
  runs. (The defaulted copy constructor is deleted, a string stream not being copyable:
  there is no copy operation.)
\<close>

definition move :: "platform \<Rightarrow> basic_log_stream \<Rightarrow> basic_log_stream \<times> basic_log_stream" where
  "move P ls =
     (ls,
      \<lparr>entry = (entry ls)\<lparr>msg := moved_from_string P (msg (entry ls))\<rparr>,
       stream = moved_from P (stream ls)\<rparr>)"

text \<open>
  The macro \<open>_L3PP_LOG(level, channel, expr)\<close>; a channel is a name or a pointer to a
  logger, \<open>expr\<close> the values streamed, and the temporary stream is destroyed at the end
  of the statement.
\<close>

datatype channel = by_name string | by_pointer nat

fun l3pp_getLogger :: "channel \<Rightarrow> state \<Rightarrow> nat \<times> state" where
  "l3pp_getLogger (by_name nm) s = getLogger nm s"
| "l3pp_getLogger (by_pointer a) s = (a, s)"

definition L3PP_LOG ::
  "platform \<Rightarrow> LogLevel \<Rightarrow> channel \<Rightarrow> streamable list \<Rightarrow> log_context \<Rightarrow> state
    \<Rightarrow> (error + state) option" where
  "L3PP_LOG P lvl ch expr context s =
     (case l3pp_getLogger ch s of
        (L3PP_channel, s1) \<Rightarrow>
          (case getLevel L3PP_channel s1 of
             None \<Rightarrow> None
           | Some (Inl err) \<Rightarrow> Some (Inl err)
           | Some (Inr l) \<Rightarrow>
               if level_le l lvl
               then destroy P (foldl (\<lambda>ls v. shift v ls) (log_stream lvl context L3PP_channel s1) expr) s1
               else Some (Inr s1)))"

section \<open>The name hierarchy\<close>

text \<open>
  The name under which \<open>getLogger\<close> looks for the parent of a logger named \<open>nm\<close>: the
  part before the last dot, the empty name (the root) when there is no dot; and the
  names \<open>getLogger\<close> passes through from \<open>nm\<close> upwards, the root left out.
\<close>

definition parent_name :: "string \<Rightarrow> string" where
  "parent_name nm = (case rfind nm CHR ''.'' of None \<Rightarrow> [] | Some n \<Rightarrow> take n nm)"

lemma parent_name_shorter: "nm \<noteq> [] \<Longrightarrow> length (parent_name nm) < length nm"
  by (auto simp: parent_name_def dest: rfind_less split: option.splits)

function ancestry :: "string \<Rightarrow> string list" where
  "ancestry nm = (if nm = [] then [] else nm # ancestry (parent_name nm))"
  by pat_completeness auto
termination
  by (relation "measure length") (auto simp: parent_name_shorter)

declare ancestry.simps [simp del]

text \<open>
  A dotted prefix of a name is what stands before one of its dots; \<open>registered\<close> is the
  logger a name designates, the empty name designating the root.
\<close>

definition dotted_prefix :: "string \<Rightarrow> string \<Rightarrow> bool" where
  "dotted_prefix p nm = (\<exists>k \<in> {..<length nm}. nm ! k = CHR ''.'' \<and> p = take k nm)"

definition registered :: "state \<Rightarrow> string \<Rightarrow> nat option" where
  "registered s nm = (if nm = [] then root_logger s else loggers s nm)"

section \<open>Invariants of the state\<close>

text \<open>
  The parent of a logger was created before it, and only a logger with a parent has the
  level \<open>INHERIT\<close>.
\<close>

definition heap_wf :: "state \<Rightarrow> bool" where
  "heap_wf s =
     (\<forall>a < length (heap s).
        (\<forall>p. parent (heap s ! a) = Some p \<longrightarrow> p < a)
        \<and> (parent (heap s ! a) = None \<longrightarrow> level (heap s ! a) \<noteq> INHERIT))"

text \<open>The sinks of a logger are sinks of the store.\<close>

definition sinks_wf :: "state \<Rightarrow> bool" where
  "sinks_wf s = (\<forall>lg \<in> set (heap s). \<forall>k \<in> set (sinks lg). k < length (sink_heap s))"

text \<open>
  The registry: the root has no parent and the empty name; a registered logger carries
  the name it is registered under, and its parent is the logger registered under the
  parent name; every logger of the store is the one registered under its name.
\<close>

definition registry_wf :: "state \<Rightarrow> bool" where
  "registry_wf s =
     ((\<forall>r. root_logger s = Some r \<longrightarrow>
          r < length (heap s) \<and> parent (heap s ! r) = None \<and> name (heap s ! r) = [])
      \<and> (\<forall>nm a. loggers s nm = Some a \<longrightarrow>
            nm \<noteq> [] \<and> a < length (heap s) \<and> name (heap s ! a) = nm
            \<and> (\<exists>p. parent (heap s ! a) = Some p \<and> registered s (parent_name nm) = Some p))
      \<and> (\<forall>a < length (heap s). registered s (name (heap s ! a)) = Some a))"

text \<open>
  \<open>on_chain h a x\<close>: \<open>x\<close> is reached from \<open>a\<close> by parent steps that leave additive
  loggers only. \<open>strict_ancestor h q a\<close>: \<open>q\<close> is reached from \<open>a\<close> by one or more
  parent steps.
\<close>

inductive on_chain :: "basic_logger list \<Rightarrow> nat \<Rightarrow> nat \<Rightarrow> bool" for h where
  self: "on_chain h a a"
| up: "a < length h \<Longrightarrow> additive (h ! a) \<Longrightarrow> parent (h ! a) = Some p \<Longrightarrow> on_chain h p x
        \<Longrightarrow> on_chain h a x"

inductive strict_ancestor :: "basic_logger list \<Rightarrow> nat \<Rightarrow> nat \<Rightarrow> bool" for h where
  parent: "a < length h \<Longrightarrow> parent (h ! a) = Some p \<Longrightarrow> strict_ancestor h p a"
| further: "a < length h \<Longrightarrow> parent (h ! a) = Some p \<Longrightarrow> strict_ancestor h q p
        \<Longrightarrow> strict_ancestor h q a"

code_pred on_chain .

code_pred strict_ancestor .

text \<open>
  The \<open>n\<close>-th ancestor of a logger: itself for 0, the parent of the \<open>n\<close>-th for \<open>n + 1\<close>.
\<close>

fun nth_ancestor :: "basic_logger list \<Rightarrow> nat \<Rightarrow> nat \<Rightarrow> nat option" where
  "nth_ancestor h a 0 = (if a < length h then Some a else None)"
| "nth_ancestor h a (Suc n) =
     (case deref h a of
        None \<Rightarrow> None
      | Some lg \<Rightarrow> (case parent lg of None \<Rightarrow> None | Some p \<Rightarrow> nth_ancestor h p n))"

text \<open>The number of writes a sink has received.\<close>

definition writes :: "state \<Rightarrow> nat \<Rightarrow> nat" where
  "writes s k = (case deref (sink_heap s) k of None \<Rightarrow> 0 | Some sink \<Rightarrow> length (os sink))"

text \<open>
  A file name is renderable when every formatter in use is defined on it: a formatter
  with a file name field needs a path separator in the file name.
\<close>

fun is_FileName :: "element \<Rightarrow> bool" where
  "is_FileName (basic_field f W j F) = (f = FileName)"
| "is_FileName (basic_time_field formatStr) = False"
| "is_FileName (other t) = False"

fun uses_FileName :: "formatter \<Rightarrow> bool" where
  "uses_FileName basic_formatter = False"
| "uses_FileName (basic_template_formatter formatters) = list_ex is_FileName formatters"

definition renderable :: "platform \<Rightarrow> string \<Rightarrow> state \<Rightarrow> bool" where
  "renderable P file s =
     (\<forall>sink \<in> set (sink_heap s). uses_FileName (formatter sink) \<longrightarrow> separator P \<in> set file)"

text \<open>
  The states a program reaches through the interface of the library, from the state in
  which no static is initialised; the clock may show any time.
\<close>

inductive reachable :: "platform \<Rightarrow> state \<Rightarrow> bool" for P where
  start: "reachable P state0"
| tick: "reachable P s \<Longrightarrow> reachable P (s\<lparr>clock := t\<rparr>)"
| initialize: "reachable P s \<Longrightarrow> reachable P (snd (GetStartTime s))"
| getRootLogger: "reachable P s \<Longrightarrow> reachable P (snd (getRootLogger s))"
| getLogger: "reachable P s \<Longrightarrow> reachable P (snd (getLogger nm s))"
| create: "reachable P s \<Longrightarrow> reachable P (snd (create s))"
| setFormatter: "reachable P s \<Longrightarrow> sink_invoke (setFormatter f) k s = Inr s' \<Longrightarrow> reachable P s'"
| sink_setLevel: "reachable P s \<Longrightarrow> sink_invoke (sink_setLevel l) k s = Inr s' \<Longrightarrow> reachable P s'"
| addSink: "reachable P s \<Longrightarrow> k < length (sink_heap s) \<Longrightarrow> invoke (addSink k) a s = Inr s'
     \<Longrightarrow> reachable P s'"
| removeSink: "reachable P s \<Longrightarrow> invoke (removeSink k) a s = Inr s' \<Longrightarrow> reachable P s'"
| setLevel: "reachable P s \<Longrightarrow> invoke (setLevel l) a s = Inr s' \<Longrightarrow> reachable P s'"
| setAdditive: "reachable P s \<Longrightarrow> invoke (setAdditive b) a s = Inr s' \<Longrightarrow> reachable P s'"
| log: "reachable P s \<Longrightarrow> log P lvl m context a s = Some (Inr s') \<Longrightarrow> reachable P s'"
| destroy: "reachable P s \<Longrightarrow> destroy P ls s = Some (Inr s') \<Longrightarrow> reachable P s'"
| L3PP_LOG: "reachable P s \<Longrightarrow> L3PP_LOG P lvl ch expr context s = Some (Inr s') \<Longrightarrow> reachable P s'"

text \<open>A platform and a state for the examples: the root logger with one sink.\<close>

definition posix :: platform where
  "posix = \<lparr>win32 = False, put_time = (\<lambda>formatStr t. []), ticks_per_ms = 1000000,
            moved_from = (\<lambda>out. stringstream), moved_from_string = (\<lambda>m. [])\<rparr>"

definition root_with_sink :: state where
  "root_with_sink =
     \<lparr>heap = [addSink 0 basic_logger0],
      sink_heap = [\<lparr>formatter = basic_formatter, sink_level = LogLevel_ALL, os = []\<rparr>],
      root_logger = Some 0, loggers = Map.empty, startTime = None, clock = 0\<rparr>"

text \<open>
  A second state: the root logger with sink 0 and the logger \<open>"a"\<close>, not additive,
  with sink 1.
\<close>

definition child_with_sink :: state where
  "child_with_sink =
     \<lparr>heap = [addSink 0 basic_logger0,
              setAdditive False (addSink 1 (basic_logger2 ''a'' (Some 0)))],
      sink_heap = [\<lparr>formatter = basic_formatter, sink_level = LogLevel_ALL, os = []\<rparr>,
                   \<lparr>formatter = basic_formatter, sink_level = LogLevel_ALL, os = []\<rparr>],
      root_logger = Some 0, loggers = [''a'' \<mapsto> 1], startTime = None, clock = 0\<rparr>"

section \<open>Auxiliary notions\<close>

text \<open>A sequence of calls of \<open>getLogger\<close>.\<close>

definition getLoggers :: "string list \<Rightarrow> state \<Rightarrow> state" where
  "getLoggers nms s = foldl (\<lambda>s1 nm. snd (getLogger nm s1)) s nms"

text \<open>The characters a streamed value stands for.\<close>

fun render :: "streamable \<Rightarrow> string" where
  "render (VStr v) = v"
| "render (VChar c) = [c]"
| "render (VInt i) = show_int i"
| "render (VNat n) = show_nat n"
| "render (VLevel l) = level_name l"
| "render (VSetw w) = []"
| "render (VSetfill c) = []"

text \<open>
  The sinks a logger delivers to, in order, with repetitions: its own and, if it is
  additive, those of its parent's chain.
\<close>

function chain_sinks :: "basic_logger list \<Rightarrow> nat \<Rightarrow> nat list" where
  "chain_sinks h a =
     (if a < length h
      then sinks (h ! a) @
        (if additive (h ! a)
         then (case parent (h ! a) of
                 None \<Rightarrow> []
               | Some p \<Rightarrow> if p < a then chain_sinks h p else [])
         else [])
      else [])"
  by pat_completeness auto
termination
  by (relation "measure (\<lambda>(h, a). a)") auto

declare chain_sinks.simps [simp del]

text \<open>What formatting leaves as it is, and what a delivery leaves as it is.\<close>

definition unchanged_but_start :: "state \<Rightarrow> state \<Rightarrow> bool" where
  "unchanged_but_start s s' =
     (heap s' = heap s \<and> sink_heap s' = sink_heap s \<and> root_logger s' = root_logger s
      \<and> loggers s' = loggers s \<and> clock s' = clock s)"

definition sinks_kept :: "state \<Rightarrow> state \<Rightarrow> bool" where
  "sinks_kept s s' =
     (heap s' = heap s \<and> root_logger s' = root_logger s \<and> loggers s' = loggers s
      \<and> clock s' = clock s \<and> length (sink_heap s') = length (sink_heap s)
      \<and> (\<forall>j < length (sink_heap s).
            formatter (sink_heap s' ! j) = formatter (sink_heap s ! j)
            \<and> sink_level (sink_heap s' ! j) = sink_level (sink_heap s ! j)))"

text \<open>What a call of \<open>getLogger\<close> or \<open>getRootLogger\<close> leaves as it is.\<close>

definition extends :: "state \<Rightarrow> state \<Rightarrow> bool" where
  "extends s s' =
     ((\<exists>new. heap s' = heap s @ new) \<and> sink_heap s' = sink_heap s
      \<and> startTime s' = startTime s \<and> clock s' = clock s
      \<and> (\<forall>r. root_logger s = Some r \<longrightarrow> root_logger s' = Some r)
      \<and> (\<forall>x y. loggers s x = Some y \<longrightarrow> loggers s' x = Some y))"

text \<open>What a call of \<open>logEntry\<close> does, when it does not leave defined behaviour.\<close>

definition delivered_chain :: "basic_log_entry \<Rightarrow> nat \<Rightarrow> state \<Rightarrow> state \<Rightarrow> bool" where
  "delivered_chain e a s s' =
     (sinks_kept s s'
      \<and> (\<forall>j < length (sink_heap s).
            writes s' j = writes s j +
              (if level_ge (entry_level e) (sink_level (sink_heap s ! j))
               then count_list (chain_sinks (heap s) a) j else 0)))"

section \<open>Properties of the formatters\<close>

lemma rfind_None: "(rfind xs c = None) = (c \<notin> set xs)"
  by (induction xs) (auto split: option.splits)

lemma rfind_mem: "rfind xs c = Some n \<Longrightarrow> c \<in> set xs"
  using rfind_None [of xs c] by auto

text \<open>
  Claim C9. The default formatter renders an entry as the text of its level, the
  separator \<open>" - "\<close>, its message and a newline, the text of a level being \<open>TRACE\<close>,
  \<open>DEBUG\<close>, \<open>INFO\<close>, \<open>WARN\<close>, \<open>ERROR\<close>, \<open>FATAL\<close>, \<open>OFF\<close>, and \<open>???\<close> for
  \<open>INHERIT\<close>; for a \<open>FATAL\<close> entry with message \<open>"boom"\<close> the output is
  \<open>"FATAL - boom\n"\<close>. The state is left as it is.
\<close>

theorem default_formatter_renders:
  "format P basic_formatter context s =
     Inr ((case entry_level context of
             TRACE \<Rightarrow> ''TRACE''
           | DEBUG \<Rightarrow> ''DEBUG''
           | INFO \<Rightarrow> ''INFO''
           | WARN \<Rightarrow> ''WARN''
           | ERR \<Rightarrow> ''ERROR''
           | FATAL \<Rightarrow> ''FATAL''
           | OFF \<Rightarrow> ''OFF''
           | INHERIT \<Rightarrow> ''???'') @ '' - '' @ msg context @ [CHR 0x0A], s)
   \<and> format P basic_formatter (context\<lparr>entry_level := FATAL, msg := ''boom''\<rparr>) s =
       Inr (''FATAL - boom'' @ [CHR 0x0A], s)
   \<and> format P basic_formatter (context\<lparr>entry_level := INFO, msg := ''x=5 done''\<rparr>) s =
       Inr (''INFO - x=5 done'' @ [CHR 0x0A], s)"
  by (cases "entry_level context")
    (simp_all add: basic_formatter_format_def put_level_def put_def padding_def
      stringstream_def str_def)

text \<open>
  Claim C3. The template of a logger name field of width 6, justification \<open>LEFT\<close> and
  fill \<open>'.'\<close>, the literal \<open>" | "\<close> and a message field, on an entry of the logger
  \<open>"ab"\<close> with message \<open>"hi"\<close>: the code renders \<open>"....ab | hi"\<close>, the fill on the left,
  and not \<open>"ab.... | hi"\<close>, because the switch on the justification falls through from
  \<open>LEFT\<close> to \<open>RIGHT\<close>.
\<close>

theorem left_justified_field_padded_on_the_left:
  "format P
     (basic_template_formatter
        [basic_field LoggerName 6 LEFT CHR ''.'', other (VStr '' | ''),
         basic_field Message 0 RIGHT CHR '' ''])
     (basic_log_entry4 t context 1 lvl ''hi'') (snd (getLogger ''ab'' state0))
   = Inr (''....ab | hi'', snd (getLogger ''ab'' state0))
   \<and> ''....ab | hi'' \<noteq> ''ab.... | hi''
   \<and> justify LEFT out = justify RIGHT out"
  by (simp add: getLogger.simps getRootLogger_def new_logger_def state0_def basic_logger0_def
      basic_logger2_def emplace_def basic_template_formatter_format_def deref_def
      basic_log_entry4_def put_def padding_def setw_def setfill_def left_def right_def
      stringstream_def str_def eval_nat_numeral)

text \<open>
  Claim C10. The file name field is defined exactly on the entries whose file name
  contains the path separator: without one \<open>strrchr\<close> returns the null pointer, to which
  the code adds 1. The default context, whose file name is empty, is such an entry, and
  a template formatter with a file name field is undefined on it, and so is a call of
  \<open>log\<close> without a context on a logger whose sink has such a formatter.
\<close>

theorem file_name_field_partial:
  "(basic_field_stream P FileName W j F out context s = Inl NullPointer)
     = (separator P \<notin> set (filename context))
   \<and> basic_field_stream P FileName W j F out (basic_log_entry4 t log_context0 a lvl m) s
       = Inl NullPointer
   \<and> format P (basic_template_formatter [basic_field FileName W j F])
        (basic_log_entry4 t log_context0 a lvl m) s = Inl NullPointer
   \<and> log P FATAL m log_context0 0
        (root_with_sink\<lparr>sink_heap :=
           [\<lparr>formatter = basic_template_formatter [basic_field FileName W j F],
             sink_level = LogLevel_ALL, os = []\<rparr>]\<rparr>)
       = Some (Inl NullPointer)"
proof -
  have "(basic_field_stream P FileName W j F out context s = Inl NullPointer)
     = (separator P \<notin> set (filename context))"
    by (auto simp: strrchr_def rfind_None dest: rfind_mem split: option.splits)
  moreover have "basic_field_stream P FileName W j F out
      (basic_log_entry4 t log_context0 a lvl m) s = Inl NullPointer" for out t a lvl m s
    by (simp add: strrchr_def basic_log_entry4_def log_context0_def)
  moreover from this have "format P (basic_template_formatter [basic_field FileName W j F])
        (basic_log_entry4 t log_context0 a lvl m) s = Inl NullPointer" for t a lvl m s
    by (simp add: basic_template_formatter_format_def)
  moreover from this have "log P FATAL m log_context0 0
        (root_with_sink\<lparr>sink_heap :=
           [\<lparr>formatter = basic_template_formatter [basic_field FileName W j F],
             sink_level = LogLevel_ALL, os = []\<rparr>]\<rparr>)
       = Some (Inl NullPointer)"
    by (simp add: log_def getLevel.simps logEntry.simps root_with_sink_def deref_def
        addSink_def basic_logger0_def level_less_def sink_log_def level_ge_def
        formatMessage_def)
  ultimately show ?thesis by simp
qed

section \<open>Properties of the registry\<close>

lemma dotted_prefix_iff:
  "dotted_prefix p nm = (\<exists>k < length nm. nm ! k = CHR ''.'' \<and> p = take k nm)"
  by (auto simp: dotted_prefix_def)

lemma rfind_Some:
  "(rfind xs c = Some n) = (n < length xs \<and> xs ! n = c \<and> (\<forall>j. n < j \<and> j < length xs \<longrightarrow> xs ! j \<noteq> c))"
proof (induction xs arbitrary: n)
  case Nil
  then show ?case by simp
next
  case (Cons x xs)
  show ?case
  proof (cases "rfind xs c")
    case None
    then have notin: "c \<notin> set xs" by (simp add: rfind_None)
    show ?thesis
    proof (cases "x = c")
      case True
      have "(n = 0) = (n < Suc (length xs) \<and> (x # xs) ! n = c \<and> (\<forall>j. n < j \<and> j < Suc (length xs) \<longrightarrow> (x # xs) ! j \<noteq> c))"
      proof
        assume "n = 0"
        with True notin show "n < Suc (length xs) \<and> (x # xs) ! n = c \<and> (\<forall>j. n < j \<and> j < Suc (length xs) \<longrightarrow> (x # xs) ! j \<noteq> c)"
          by (auto simp: nth_Cons split: nat.splits)
      next
        assume a: "n < Suc (length xs) \<and> (x # xs) ! n = c \<and> (\<forall>j. n < j \<and> j < Suc (length xs) \<longrightarrow> (x # xs) ! j \<noteq> c)"
        show "n = 0"
        proof (rule ccontr)
          assume "n \<noteq> 0"
          then obtain m where "n = Suc m" by (cases n) auto
          with a have "m < length xs" "xs ! m = c" by auto
          with notin show False by (metis nth_mem)
        qed
      qed
      with None True show ?thesis by simp
    next
      case False
      have "\<not> (n < Suc (length xs) \<and> (x # xs) ! n = c)"
      proof
        assume a: "n < Suc (length xs) \<and> (x # xs) ! n = c"
        show False
        proof (cases n)
          case 0
          with a False show False by simp
        next
          case (Suc m)
          with a have "m < length xs" "xs ! m = c" by auto
          with notin show False by (metis nth_mem)
        qed
      qed
      with None False show ?thesis by auto
    qed
  next
    case (Some k)
    from Some Cons.IH[of k] have k: "k < length xs" "xs ! k = c" "\<forall>j. k < j \<and> j < length xs \<longrightarrow> xs ! j \<noteq> c"
      by auto
    have "(n = Suc k) = (n < Suc (length xs) \<and> (x # xs) ! n = c \<and> (\<forall>j. n < j \<and> j < Suc (length xs) \<longrightarrow> (x # xs) ! j \<noteq> c))"
    proof
      assume "n = Suc k"
      with k show "n < Suc (length xs) \<and> (x # xs) ! n = c \<and> (\<forall>j. n < j \<and> j < Suc (length xs) \<longrightarrow> (x # xs) ! j \<noteq> c)"
        by (auto simp: nth_Cons split: nat.splits)
    next
      assume a: "n < Suc (length xs) \<and> (x # xs) ! n = c \<and> (\<forall>j. n < j \<and> j < Suc (length xs) \<longrightarrow> (x # xs) ! j \<noteq> c)"
      show "n = Suc k"
      proof (rule ccontr)
        assume ne: "n \<noteq> Suc k"
        from a have "\<not> n < Suc k"
        proof -
          have "Suc k < Suc (length xs)" "(x # xs) ! Suc k = c" using k by auto
          with a show ?thesis by blast
        qed
        with ne have gt: "Suc k < n" by simp
        then obtain m where m: "n = Suc m" "k < m" by (cases n) auto
        with a have "m < length xs" "xs ! m = c" by auto
        with k m show False by blast
      qed
    qed
    with Some show ?thesis by auto
  qed
qed

lemma getRootLogger_Some: "root_logger s = Some r \<Longrightarrow> getRootLogger s = (r, s)"
  by (simp add: getRootLogger_def)

lemma getRootLogger_None:
  "root_logger s = None \<Longrightarrow>
   getRootLogger s =
     (length (heap s), s\<lparr>heap := heap s @ [basic_logger0], root_logger := Some (length (heap s))\<rparr>)"
  by (simp add: getRootLogger_def new_logger_def)

lemma getLogger_root: "getLogger [] s = getRootLogger s"
  by (simp add: getLogger.simps)

lemma getLogger_found: "nm \<noteq> [] \<Longrightarrow> loggers s nm = Some a \<Longrightarrow> getLogger nm s = (a, s)"
  by (simp add: getLogger.simps)

lemma getLogger_new:
  assumes "nm \<noteq> []" "loggers s nm = None" "getLogger (parent_name nm) s = (p, s1)"
  shows "getLogger nm s =
     (length (heap s1),
      s1\<lparr>heap := heap s1 @ [basic_logger2 nm (Some p)],
         loggers := emplace nm (length (heap s1)) (loggers s1)\<rparr>)"
proof (cases "rfind nm CHR ''.''")
  case None
  with assms have "getRootLogger s = (p, s1)"
    by (simp add: parent_name_def getLogger_root)
  with assms None show ?thesis
    by (subst getLogger.simps) (simp add: new_logger_def)
next
  case (Some n)
  with assms have "getLogger (take n nm) s = (p, s1)"
    by (simp add: parent_name_def)
  with assms Some show ?thesis
    by (subst getLogger.simps) (simp add: new_logger_def)
qed

lemma getLogger_induct [case_names step]:
  assumes "\<And>nm s. (nm \<noteq> [] \<Longrightarrow> loggers s nm = None \<Longrightarrow> Q (parent_name nm) s) \<Longrightarrow> Q nm s"
  shows "Q nm s"
proof (induction "length nm" arbitrary: nm rule: less_induct)
  case less
  show ?case
    by (rule assms) (simp add: less parent_name_shorter)
qed

lemma ancestry_Nil: "ancestry [] = []"
  by (simp add: ancestry.simps)

lemma ancestry_Cons: "nm \<noteq> [] \<Longrightarrow> ancestry nm = nm # ancestry (parent_name nm)"
  by (subst ancestry.simps) simp

lemma ancestry_length: "x \<in> set (ancestry nm) \<Longrightarrow> length x \<le> length nm \<and> x \<noteq> []"
proof (induction "length nm" arbitrary: nm rule: less_induct)
  case less
  show ?case
  proof (cases "nm = []")
    case True
    with less.prems show ?thesis by (simp add: ancestry_Nil)
  next
    case False
    with less.prems have "x = nm \<or> x \<in> set (ancestry (parent_name nm))"
      by (simp add: ancestry_Cons)
    then show ?thesis
    proof
      assume "x = nm"
      with False show ?thesis by simp
    next
      assume "x \<in> set (ancestry (parent_name nm))"
      with less.hyps [of "parent_name nm"] parent_name_shorter [OF False]
      show ?thesis by auto
    qed
  qed
qed

lemma not_in_parent_ancestry: "nm \<noteq> [] \<Longrightarrow> nm \<notin> set (ancestry (parent_name nm))"
  using ancestry_length [of nm "parent_name nm"] parent_name_shorter [of nm] by auto

lemma extends_refl: "extends s s"
  by (simp add: extends_def)

lemma extends_trans: "extends s s1 \<Longrightarrow> extends s1 s2 \<Longrightarrow> extends s s2"
  by (auto simp: extends_def)

lemma getRootLogger_effect:
  assumes "getRootLogger s = (r, s')"
  shows "root_logger s' = Some r \<and> loggers s' = loggers s \<and> extends s s'"
  using assms by (cases "root_logger s") (auto simp: getRootLogger_Some getRootLogger_None extends_def)

lemma getLogger_effect:
  "getLogger nm s = (a, s') \<Longrightarrow>
     registered s' nm = Some a
     \<and> (\<forall>x. x \<notin> set (ancestry nm) \<longrightarrow> loggers s' x = loggers s x)
     \<and> extends s s'"
proof (induction nm s arbitrary: a s' rule: getLogger_induct)
  case (step nm s)
  show ?case
  proof (cases "nm = []")
    case True
    with step.prems getRootLogger_effect [of s a s'] show ?thesis
      by (simp add: getLogger_root registered_def)
  next
    case False
    show ?thesis
    proof (cases "loggers s nm")
      case (Some it)
      with False step.prems show ?thesis
        by (auto simp: getLogger_found registered_def extends_refl)
    next
      case None
      obtain p s1 where par: "getLogger (parent_name nm) s = (p, s1)"
        by (cases "getLogger (parent_name nm) s") auto
      from step.IH [OF False None par]
      have ih: "registered s1 (parent_name nm) = Some p"
        "\<forall>x. x \<notin> set (ancestry (parent_name nm)) \<longrightarrow> loggers s1 x = loggers s x"
        "extends s s1" by auto
      from ih(2) None not_in_parent_ancestry [OF False] have fresh: "loggers s1 nm = None"
        by auto
      from getLogger_new [OF False None par] step.prems
      have a: "a = length (heap s1)"
        and s': "s' = s1\<lparr>heap := heap s1 @ [basic_logger2 nm (Some p)],
                        loggers := emplace nm (length (heap s1)) (loggers s1)\<rparr>"
        by auto
      have 1: "registered s' nm = Some a"
        using False fresh a s' by (simp add: registered_def emplace_def)
      have 2: "\<forall>x. x \<notin> set (ancestry nm) \<longrightarrow> loggers s' x = loggers s x"
        using ih(2) fresh s' False by (auto simp: ancestry_Cons emplace_def)
      have "extends s1 s'"
        using fresh s' by (auto simp: extends_def emplace_def)
      with ih(3) have 3: "extends s s'" by (rule extends_trans)
      from 1 2 3 show ?thesis by simp
    qed
  qed
qed

lemma getLogger_twice: "getLogger nm (snd (getLogger nm s)) = getLogger nm s"
proof -
  obtain a s' where r: "getLogger nm s = (a, s')" by (cases "getLogger nm s") auto
  from getLogger_effect [OF r] have reg: "registered s' nm = Some a" by simp
  have "getLogger nm s' = (a, s')"
  proof (cases "nm = []")
    case True
    with reg show ?thesis by (simp add: registered_def getLogger_root getRootLogger_Some)
  next
    case False
    with reg show ?thesis by (simp add: registered_def getLogger_found)
  qed
  with r show ?thesis by simp
qed

lemma dotted_prefix_step:
  assumes "rfind nm CHR ''.'' = Some n"
  shows "dotted_prefix p nm = (p = take n nm \<or> dotted_prefix p (take n nm))"
proof -
  from assms have n: "n < length nm" "nm ! n = CHR ''.''"
    and last: "\<And>j. n < j \<Longrightarrow> j < length nm \<Longrightarrow> nm ! j \<noteq> CHR ''.''"
    by (auto simp: rfind_Some)
  show ?thesis
  proof
    assume "dotted_prefix p nm"
    then obtain k where k: "k < length nm" "nm ! k = CHR ''.''" "p = take k nm"
      by (auto simp: dotted_prefix_iff)
    with last [of k] have "k \<le> n" by (cases "n < k") auto
    show "p = take n nm \<or> dotted_prefix p (take n nm)"
    proof (cases "k = n")
      case True
      with k show ?thesis by simp
    next
      case False
      with \<open>k \<le> n\<close> have "k < n" by simp
      with k n have "k < length (take n nm)" "take n nm ! k = CHR ''.''" "p = take k (take n nm)"
        by (auto simp: min_def)
      then show ?thesis unfolding dotted_prefix_iff by blast
    qed
  next
    assume "p = take n nm \<or> dotted_prefix p (take n nm)"
    then show "dotted_prefix p nm"
    proof
      assume "p = take n nm"
      with n show ?thesis unfolding dotted_prefix_iff by blast
    next
      assume "dotted_prefix p (take n nm)"
      then obtain k where k: "k < length (take n nm)" "take n nm ! k = CHR ''.''"
        "p = take k (take n nm)"
        by (auto simp: dotted_prefix_iff)
      with n have "k < length nm" "nm ! k = CHR ''.''" "p = take k nm"
        by (auto simp: min_def)
      then show ?thesis unfolding dotted_prefix_iff by blast
    qed
  qed
qed

lemma dotted_prefix_no_dot: "rfind nm CHR ''.'' = None \<Longrightarrow> \<not> dotted_prefix p nm"
  unfolding rfind_None dotted_prefix_iff by (metis nth_mem)

lemma ancestry_set:
  "set (ancestry nm) = {p. p \<noteq> [] \<and> (p = nm \<or> dotted_prefix p nm)}"
proof (induction "length nm" arbitrary: nm rule: less_induct)
  case less
  show ?case
  proof (cases "nm = []")
    case True
    then show ?thesis by (auto simp: ancestry_Nil dotted_prefix_iff)
  next
    case False
    note ih = less.hyps [OF parent_name_shorter [OF False]]
    show ?thesis
    proof (cases "rfind nm CHR ''.''")
      case None
      then have "parent_name nm = []" by (simp add: parent_name_def)
      with False None show ?thesis
        by (auto simp: ancestry_Cons ancestry_Nil dotted_prefix_no_dot)
    next
      case (Some n)
      then have pn: "parent_name nm = take n nm" by (simp add: parent_name_def)
      from ih pn have "set (ancestry (take n nm)) =
          {p. p \<noteq> [] \<and> (p = take n nm \<or> dotted_prefix p (take n nm))}" by simp
      with False pn show ?thesis
        by (auto simp: ancestry_Cons dotted_prefix_step [OF Some])
    qed
  qed
qed

lemma parent_name_longest:
  "(CHR ''.'' \<notin> set nm \<longrightarrow> parent_name nm = [] \<and> (\<forall>q. \<not> dotted_prefix q nm))
   \<and> (CHR ''.'' \<in> set nm \<longrightarrow>
        dotted_prefix (parent_name nm) nm
        \<and> (\<forall>q. dotted_prefix q nm \<longrightarrow> length q \<le> length (parent_name nm)))"
proof (cases "rfind nm CHR ''.''")
  case None
  then have "CHR ''.'' \<notin> set nm" by (simp add: rfind_None)
  with None show ?thesis
    using dotted_prefix_no_dot [OF None] by (simp add: parent_name_def)
next
  case (Some n)
  then have n: "n < length nm" by (rule rfind_less)
  have "\<And>q. dotted_prefix q nm \<Longrightarrow> length q \<le> length (take n nm)"
    unfolding dotted_prefix_step [OF Some] using n by (auto simp: dotted_prefix_iff)
  moreover have "dotted_prefix (take n nm) nm"
    by (simp add: dotted_prefix_step [OF Some])
  ultimately show ?thesis
    using Some rfind_mem [OF Some] by (auto simp: parent_name_def)
qed

lemma ancestry_distinct: "distinct (ancestry nm)"
proof (induction "length nm" arbitrary: nm rule: less_induct)
  case less
  show ?case
  proof (cases "nm = []")
    case True
    then show ?thesis by (simp add: ancestry_Nil)
  next
    case False
    with less.hyps [OF parent_name_shorter [OF False]] not_in_parent_ancestry [OF False]
    show ?thesis by (simp add: ancestry_Cons)
  qed
qed

subsection \<open>Invariants\<close>

lemma registry_wf_state0: "registry_wf state0"
  by (simp add: registry_wf_def state0_def)

lemma registry_wf_entry:
  assumes "registry_wf s" "loggers s nm = Some a"
  shows "nm \<noteq> [] \<and> a < length (heap s) \<and> name (heap s ! a) = nm
    \<and> (\<exists>p. parent (heap s ! a) = Some p \<and> registered s (parent_name nm) = Some p)"
  using assms unfolding registry_wf_def by blast

lemma registry_wf_root:
  assumes "registry_wf s" "loggers s nm = Some a"
  shows "root_logger s \<noteq> None \<and> set (ancestry nm) \<subseteq> dom (loggers s)"
  using assms(2)
proof (induction "length nm" arbitrary: nm a rule: less_induct)
  case less
  from registry_wf_entry [OF assms(1) less.prems] obtain p where ne: "nm \<noteq> []"
    and par: "registered s (parent_name nm) = Some p"
    by blast
  show ?case
  proof (cases "parent_name nm = []")
    case True
    with par less.prems ne show ?thesis
      by (auto simp: registered_def ancestry_Cons ancestry_Nil)
  next
    case False
    with par have "loggers s (parent_name nm) = Some p"
      by (auto simp: registered_def)
    from less.hyps [OF parent_name_shorter [OF ne] this] less.prems ne
    show ?thesis by (auto simp: ancestry_Cons)
  qed
qed

lemma getRootLogger_registry_wf:
  assumes "registry_wf s" "getRootLogger s = (r, s')"
  shows "registry_wf s'"
proof (cases "root_logger s")
  case (Some x)
  with assms show ?thesis by (simp add: getRootLogger_Some)
next
  case None
  have empty: "heap s = []"
  proof (rule ccontr)
    assume "heap s \<noteq> []"
    then have 0: "0 < length (heap s)" by simp
    with assms(1) have reg: "registered s (name (heap s ! 0)) = Some 0"
      unfolding registry_wf_def by blast
    show False
    proof (cases "name (heap s ! 0) = []")
      case True
      with reg None show False by (simp add: registered_def)
    next
      case False
      with reg have "loggers s (name (heap s ! 0)) = Some 0" by (simp add: registered_def)
      with registry_wf_root [OF assms(1) this] None show False by simp
    qed
  qed
  have nolog: "loggers s nm = None" for nm
  proof (cases "loggers s nm")
    case (Some a)
    with assms(1) have "a < length (heap s)" unfolding registry_wf_def by blast
    with empty show ?thesis by simp
  qed simp
  from assms(2) None have "s' = s\<lparr>heap := heap s @ [basic_logger0],
      root_logger := Some (length (heap s))\<rparr>"
    by (auto simp: getRootLogger_None)
  with empty nolog show ?thesis
    by (simp add: registry_wf_def registered_def basic_logger0_def)
qed

lemma getLogger_registry_wf:
  "registry_wf s \<Longrightarrow> getLogger nm s = (a, s') \<Longrightarrow> registry_wf s'"
proof (induction nm s arbitrary: a s' rule: getLogger_induct)
  case (step nm s)
  show ?case
  proof (cases "nm = []")
    case True
    with step.prems show ?thesis
      by (auto simp: getLogger_root intro: getRootLogger_registry_wf)
  next
    case False
    show ?thesis
    proof (cases "loggers s nm")
      case (Some it)
      with False step.prems show ?thesis by (simp add: getLogger_found)
    next
      case None
      obtain p s1 where par: "getLogger (parent_name nm) s = (p, s1)"
        by (cases "getLogger (parent_name nm) s") auto
      from step.IH [OF False None step.prems(1) par] have wf1: "registry_wf s1" .
      from getLogger_effect [OF par]
      have reg: "registered s1 (parent_name nm) = Some p"
        and same: "\<forall>x. x \<notin> set (ancestry (parent_name nm)) \<longrightarrow> loggers s1 x = loggers s x"
        by auto
      from same None not_in_parent_ancestry [OF False] have fresh: "loggers s1 nm = None"
        by auto
      from getLogger_new [OF False None par] step.prems
      have s': "s' = s1\<lparr>heap := heap s1 @ [basic_logger2 nm (Some p)],
                        loggers := (loggers s1)(nm \<mapsto> length (heap s1))\<rparr>"
        using fresh by (simp add: emplace_def)
      have reg_eq: "registered s' x = (if x = nm then Some (length (heap s1)) else registered s1 x)"
        for x using False by (simp add: s' registered_def)
      have c1: "\<forall>r. root_logger s' = Some r \<longrightarrow>
          r < length (heap s') \<and> parent (heap s' ! r) = None \<and> name (heap s' ! r) = []"
        using wf1 unfolding registry_wf_def by (auto simp: s' nth_append)
      have c2: "nm' \<noteq> [] \<and> b < length (heap s') \<and> name (heap s' ! b) = nm'
            \<and> (\<exists>q. parent (heap s' ! b) = Some q \<and> registered s' (parent_name nm') = Some q)"
        if l: "loggers s' nm' = Some b" for nm' b
      proof (cases "nm' = nm")
        case True
        with l have b: "b = length (heap s1)" by (simp add: s')
        have "parent_name nm \<noteq> nm"
          using parent_name_shorter [OF False] by auto
        then have "registered s' (parent_name nm) = Some p"
          using reg by (simp add: reg_eq)
        with True b False show ?thesis
          by (simp add: s' basic_logger2_def)
      next
        case neq: False
        with l have l1: "loggers s1 nm' = Some b" by (simp add: s')
        from registry_wf_entry [OF wf1 l1] obtain q where
          old: "nm' \<noteq> []" "b < length (heap s1)" "name (heap s1 ! b) = nm'"
          "parent (heap s1 ! b) = Some q" "registered s1 (parent_name nm') = Some q"
          by blast
        have "parent_name nm' \<noteq> nm"
        proof
          assume "parent_name nm' = nm"
          with old(5) fresh False show False
            by (simp add: registered_def)
        qed
        then have "registered s' (parent_name nm') = registered s1 (parent_name nm')"
          by (simp add: reg_eq)
        with old show ?thesis by (simp add: s' nth_append)
      qed
      have c3: "\<forall>b < length (heap s'). registered s' (name (heap s' ! b)) = Some b"
      proof (intro allI impI)
        fix b assume "b < length (heap s')"
        then have "b < length (heap s1) \<or> b = length (heap s1)" by (auto simp: s')
        then show "registered s' (name (heap s' ! b)) = Some b"
        proof
          assume b: "b < length (heap s1)"
          with wf1 have r: "registered s1 (name (heap s1 ! b)) = Some b"
            unfolding registry_wf_def by blast
          with fresh False have "name (heap s1 ! b) \<noteq> nm"
            by (auto simp: registered_def)
          with r b show ?thesis by (simp add: reg_eq) (simp add: s' nth_append)
        next
          assume "b = length (heap s1)"
          then show ?thesis by (simp add: reg_eq) (simp add: s' basic_logger2_def)
        qed
      qed
      from c1 c2 c3 show ?thesis unfolding registry_wf_def by blast
    qed
  qed
qed

lemma getLogger_dom:
  "registry_wf s \<Longrightarrow> getLogger nm s = (a, s') \<Longrightarrow>
     dom (loggers s') = dom (loggers s) \<union> set (ancestry nm)
     \<and> length (heap s') = length (heap s) + card (set (ancestry nm) - dom (loggers s))
         + (if root_logger s = None then 1 else 0)"
proof (induction nm s arbitrary: a s' rule: getLogger_induct)
  case (step nm s)
  show ?case
  proof (cases "nm = []")
    case True
    show ?thesis
    proof (cases "root_logger s")
      case None
      with True step.prems show ?thesis
        by (auto simp: getLogger_root ancestry_Nil getRootLogger_None)
    next
      case (Some r)
      with True step.prems show ?thesis
        by (auto simp: getLogger_root ancestry_Nil getRootLogger_Some)
    qed
  next
    case False
    show ?thesis
    proof (cases "loggers s nm")
      case (Some it)
      from registry_wf_root [OF step.prems(1) Some]
      have "root_logger s \<noteq> None" "set (ancestry nm) - dom (loggers s) = {}" by auto
      with Some False step.prems show ?thesis
        by (auto simp: getLogger_found)
    next
      case None
      obtain p s1 where par: "getLogger (parent_name nm) s = (p, s1)"
        by (cases "getLogger (parent_name nm) s") auto
      from step.IH [OF False None step.prems(1) par]
      have ih: "dom (loggers s1) = dom (loggers s) \<union> set (ancestry (parent_name nm))"
        "length (heap s1) = length (heap s)
           + card (set (ancestry (parent_name nm)) - dom (loggers s))
           + (if root_logger s = None then 1 else 0)" by auto
      from getLogger_effect [OF par] None not_in_parent_ancestry [OF False]
      have fresh: "loggers s1 nm = None" by auto
      from getLogger_new [OF False None par] step.prems
      have s': "s' = s1\<lparr>heap := heap s1 @ [basic_logger2 nm (Some p)],
                        loggers := (loggers s1)(nm \<mapsto> length (heap s1))\<rparr>"
        using fresh by (simp add: emplace_def)
      have "set (ancestry nm) - dom (loggers s)
          = insert nm (set (ancestry (parent_name nm)) - dom (loggers s))"
        using None False by (auto simp: ancestry_Cons)
      moreover have "nm \<notin> set (ancestry (parent_name nm)) - dom (loggers s)"
        using not_in_parent_ancestry [OF False] by simp
      ultimately have card: "card (set (ancestry nm) - dom (loggers s))
          = Suc (card (set (ancestry (parent_name nm)) - dom (loggers s)))"
        by simp
      have d: "dom (loggers s') = insert nm (dom (loggers s1))" by (simp add: s')
      have l: "length (heap s') = Suc (length (heap s1))" by (simp add: s')
      have a: "set (ancestry nm) = insert nm (set (ancestry (parent_name nm)))"
        using False by (simp add: ancestry_Cons)
      from d ih(1) a have "dom (loggers s') = dom (loggers s) \<union> set (ancestry nm)"
        by simp
      moreover from l ih(2) card
      have "length (heap s') = length (heap s) + card (set (ancestry nm) - dom (loggers s))
         + (if root_logger s = None then 1 else 0)" by simp
      ultimately show ?thesis by simp
    qed
  qed
qed

section \<open>Properties of the levels\<close>

lemma getLevel_concrete:
  "a < length (heap s) \<Longrightarrow> level (heap s ! a) \<noteq> INHERIT \<Longrightarrow>
   getLevel a s = Some (Inr (level (heap s ! a)))"
  by (subst getLevel.simps) (simp add: deref_def)

lemma getLevel_inherit:
  "a < length (heap s) \<Longrightarrow> level (heap s ! a) = INHERIT \<Longrightarrow> parent (heap s ! a) = Some p \<Longrightarrow>
   getLevel a s = getLevel p s"
  by (subst getLevel.simps) (simp add: deref_def)

lemma heap_wf_parent:
  "heap_wf s \<Longrightarrow> a < length (heap s) \<Longrightarrow> parent (heap s ! a) = Some p \<Longrightarrow> p < a"
  unfolding heap_wf_def by blast

lemma heap_wf_inherit:
  "heap_wf s \<Longrightarrow> a < length (heap s) \<Longrightarrow> level (heap s ! a) = INHERIT \<Longrightarrow>
   \<exists>p. parent (heap s ! a) = Some p \<and> p < a"
  unfolding heap_wf_def by (cases "parent (heap s ! a)") auto

lemma getLevel_nearest:
  assumes "heap_wf s" "a < length (heap s)"
  shows "\<exists>n b. nth_ancestor (heap s) a n = Some b \<and> b < length (heap s)
           \<and> level (heap s ! b) \<noteq> INHERIT
           \<and> (\<forall>m<n. \<exists>c. nth_ancestor (heap s) a m = Some c \<and> c < length (heap s)
                   \<and> level (heap s ! c) = INHERIT)
           \<and> getLevel a s = Some (Inr (level (heap s ! b)))"
  using assms(2)
proof (induction a rule: less_induct)
  case (less a)
  show ?case
  proof (cases "level (heap s ! a) = INHERIT")
    case False
    with less.prems have "nth_ancestor (heap s) a 0 = Some a \<and> a < length (heap s)
           \<and> level (heap s ! a) \<noteq> INHERIT
           \<and> (\<forall>m<0. \<exists>c. nth_ancestor (heap s) a m = Some c \<and> c < length (heap s)
                   \<and> level (heap s ! c) = INHERIT)
           \<and> getLevel a s = Some (Inr (level (heap s ! a)))"
      by (simp add: getLevel_concrete)
    then show ?thesis by blast
  next
    case True
    from heap_wf_inherit [OF assms(1) less.prems True]
    obtain p where p: "parent (heap s ! a) = Some p" "p < a" by blast
    with less.prems have pv: "p < length (heap s)" by simp
    from less.IH [OF p(2) pv] obtain n b where
      ih: "nth_ancestor (heap s) p n = Some b" "b < length (heap s)"
        "level (heap s ! b) \<noteq> INHERIT"
        "\<forall>m<n. \<exists>c. nth_ancestor (heap s) p m = Some c \<and> c < length (heap s)
                   \<and> level (heap s ! c) = INHERIT"
        "getLevel p s = Some (Inr (level (heap s ! b)))" by blast
    have step: "nth_ancestor (heap s) a (Suc m) = nth_ancestor (heap s) p m" for m
      using less.prems p by (simp add: deref_def)
    have "\<exists>c. nth_ancestor (heap s) a m = Some c \<and> c < length (heap s)
                   \<and> level (heap s ! c) = INHERIT" if "m < Suc n" for m
    proof (cases m)
      case 0
      with less.prems True show ?thesis by simp
    next
      case (Suc m')
      with that ih(4) show ?thesis by (simp add: step del: nth_ancestor.simps)
    qed
    with ih step [of n] getLevel_inherit [OF less.prems True p(1)]
    have "nth_ancestor (heap s) a (Suc n) = Some b \<and> b < length (heap s)
           \<and> level (heap s ! b) \<noteq> INHERIT
           \<and> (\<forall>m<Suc n. \<exists>c. nth_ancestor (heap s) a m = Some c \<and> c < length (heap s)
                   \<and> level (heap s ! c) = INHERIT)
           \<and> getLevel a s = Some (Inr (level (heap s ! b)))"
      by simp
    then show ?thesis by blast
  qed
qed

lemma getLevel_total:
  assumes "heap_wf s" "a < length (heap s)"
  shows "\<exists>l. getLevel a s = Some (Inr l) \<and> l \<noteq> INHERIT"
  using getLevel_nearest [OF assms] by auto

section \<open>Properties of formatting and delivery\<close>

lemma sinks_kept_refl: "sinks_kept s s"
  by (simp add: sinks_kept_def)

lemma sinks_kept_trans: "sinks_kept s s1 \<Longrightarrow> sinks_kept s1 s2 \<Longrightarrow> sinks_kept s s2"
  by (simp add: sinks_kept_def)

lemma GetStartTime_frame: "GetStartTime s = (t, s') \<Longrightarrow> unchanged_but_start s s'"
  by (auto simp: GetStartTime_def unchanged_but_start_def split: option.splits)

lemma basic_field_stream_frame:
  "basic_field_stream P f W j F out e s = Inr (out', s') \<Longrightarrow> unchanged_but_start s s'"
  by (cases f)
    (auto simp: unchanged_but_start_def GetStartTime_def split: option.splits prod.splits)

lemma formatElement_frame:
  "formatElement P t out e s = Inr (out', s') \<Longrightarrow> unchanged_but_start s s'"
  by (cases t) (auto dest: basic_field_stream_frame simp: unchanged_but_start_def)

lemma formatTuple_frame:
  "formatTuple P ts e out s = Inr (out', s') \<Longrightarrow> unchanged_but_start s s'"
proof (induction ts arbitrary: out s)
  case Nil
  then show ?case by (simp add: unchanged_but_start_def)
next
  case (Cons t ts)
  from Cons.prems obtain out1 s1 where
    1: "formatElement P t out e s = Inr (out1, s1)" and
    2: "formatTuple P ts e out1 s1 = Inr (out', s')"
    by (auto split: sum.splits)
  from formatElement_frame [OF 1] Cons.IH [OF 2] show ?case
    by (simp add: unchanged_but_start_def)
qed

lemma format_frame: "format P f e s = Inr (text, s') \<Longrightarrow> unchanged_but_start s s'"
  by (cases f)
    (auto simp: basic_template_formatter_format_def unchanged_but_start_def
      split: sum.splits dest!: formatTuple_frame)

lemma basic_field_stream_defined:
  assumes "logger e < length (heap s)" "f = FileName \<longrightarrow> separator P \<in> set (filename e)"
  shows "\<exists>out' s'. basic_field_stream P f W j F out e s = Inr (out', s')"
proof (cases f)
  case FileName
  with assms(2) obtain n where "rfind (filename e) (separator P) = Some n"
    by (cases "rfind (filename e) (separator P)") (auto simp: rfind_None)
  with FileName show ?thesis by (simp add: strrchr_def)
next
  case WallTime
  then show ?thesis by (cases "GetStartTime s") simp
qed (use assms(1) in \<open>simp_all add: deref_def\<close>)

lemma formatTuple_defined:
  assumes "logger e < length (heap s)" "list_ex is_FileName ts \<longrightarrow> separator P \<in> set (filename e)"
  shows "\<exists>out' s'. formatTuple P ts e out s = Inr (out', s')"
  using assms
proof (induction ts arbitrary: out s)
  case Nil
  then show ?case by simp
next
  case (Cons t ts)
  have "\<exists>out1 s1. formatElement P t out e s = Inr (out1, s1)"
  proof (cases t)
    case (basic_field f W j F)
    with Cons.prems basic_field_stream_defined [of e s f P W j F out] show ?thesis by simp
  qed simp_all
  then obtain out1 s1 where 1: "formatElement P t out e s = Inr (out1, s1)" by blast
  from formatElement_frame [OF 1] Cons.prems(1) have "logger e < length (heap s1)"
    by (simp add: unchanged_but_start_def)
  from Cons.IH [OF this, of out1] Cons.prems(2)
  obtain out' s' where "formatTuple P ts e out1 s1 = Inr (out', s')" by auto
  with 1 show ?case by simp
qed

lemma format_defined:
  assumes "logger e < length (heap s)" "uses_FileName f \<longrightarrow> separator P \<in> set (filename e)"
  shows "\<exists>text s'. format P f e s = Inr (text, s')"
proof (cases f)
  case basic_formatter
  then show ?thesis by simp
next
  case (basic_template_formatter ts)
  with assms formatTuple_defined [of e s ts P stringstream]
  show ?thesis by (auto simp: basic_template_formatter_format_def)
qed

subsection \<open>Deliveries\<close>

lemma sink_log_effect:
  assumes "sink_log P e k s = Inr s'"
  shows "k < length (sink_heap s) \<and> sinks_kept s s'
    \<and> (\<forall>j. writes s' j = writes s j +
          (if j = k \<and> level_ge (entry_level e) (sink_level (sink_heap s ! k)) then 1 else 0))"
proof -
  from assms have k: "k < length (sink_heap s)"
    by (auto simp: sink_log_def deref_def split: if_splits)
  show ?thesis
  proof (cases "level_ge (entry_level e) (sink_level (sink_heap s ! k))")
    case False
    with assms k show ?thesis
      by (simp add: sink_log_def deref_def sinks_kept_refl)
  next
    case True
    with assms k obtain rendered s1 where
      f: "format P (formatter (sink_heap s ! k)) e s = Inr (rendered, s1)" and
      s': "s' = s1\<lparr>sink_heap := (sink_heap s1)
              [k := (sink_heap s ! k)\<lparr>os := os (sink_heap s ! k) @ [rendered]\<rparr>]\<rparr>"
      by (auto simp: sink_log_def deref_def formatMessage_def split: sum.splits)
    from format_frame [OF f] have u: "unchanged_but_start s s1" .
    with k have "sinks_kept s s'"
      by (auto simp: s' sinks_kept_def unchanged_but_start_def nth_list_update)
    moreover have "writes s' j = writes s j + (if j = k then 1 else 0)" for j
      using u k by (auto simp: s' writes_def deref_def unchanged_but_start_def nth_list_update)
    ultimately show ?thesis using k True by simp
  qed
qed

lemma sink_log_defined:
  assumes "k < length (sink_heap s)" "logger e < length (heap s)"
    "renderable P (filename e) s"
  shows "\<exists>s'. sink_log P e k s = Inr s'"
proof -
  from assms(1,3) have "uses_FileName (formatter (sink_heap s ! k))
      \<longrightarrow> separator P \<in> set (filename e)"
    using nth_mem [of k "sink_heap s"] by (auto simp: renderable_def)
  from format_defined [OF assms(2) this] assms(1) show ?thesis
    by (auto simp: sink_log_def deref_def formatMessage_def)
qed

lemma renderable_kept: "sinks_kept s s' \<Longrightarrow> renderable P file s' = renderable P file s"
  unfolding renderable_def sinks_kept_def by (metis in_set_conv_nth)

lemma log_sinks_effect:
  "log_sinks P e ks s = Inr s' \<Longrightarrow>
     set ks \<subseteq> {..<length (sink_heap s)} \<and> sinks_kept s s'
     \<and> (\<forall>j < length (sink_heap s). writes s' j = writes s j +
          (if level_ge (entry_level e) (sink_level (sink_heap s ! j)) then count_list ks j
           else 0))"
proof (induction ks arbitrary: s)
  case Nil
  then show ?case by (simp add: sinks_kept_refl)
next
  case (Cons k ks)
  from Cons.prems obtain s1 where
    1: "sink_log P e k s = Inr s1" and 2: "log_sinks P e ks s1 = Inr s'"
    by (auto split: sum.splits)
  from sink_log_effect [OF 1] have
    k: "k < length (sink_heap s)" and kept1: "sinks_kept s s1" and
    w1: "\<And>j. writes s1 j = writes s j +
          (if j = k \<and> level_ge (entry_level e) (sink_level (sink_heap s ! k)) then 1 else 0)"
    by auto
  from Cons.IH [OF 2] have
    ks: "set ks \<subseteq> {..<length (sink_heap s1)}" and kept2: "sinks_kept s1 s'" and
    w2: "\<And>j. j < length (sink_heap s1) \<Longrightarrow> writes s' j = writes s1 j +
          (if level_ge (entry_level e) (sink_level (sink_heap s1 ! j)) then count_list ks j
           else 0)"
    by auto
  from kept1 have len: "length (sink_heap s1) = length (sink_heap s)"
    and lev: "\<And>j. j < length (sink_heap s) \<Longrightarrow>
        sink_level (sink_heap s1 ! j) = sink_level (sink_heap s ! j)"
    by (auto simp: sinks_kept_def)
  have "writes s' j = writes s j +
          (if level_ge (entry_level e) (sink_level (sink_heap s ! j))
           then count_list (k # ks) j else 0)" if "j < length (sink_heap s)" for j
    using w1 [of j] w2 [of j] that len lev [of j] by auto
  with k ks len sinks_kept_trans [OF kept1 kept2] show ?case by auto
qed

lemma log_sinks_defined:
  "set ks \<subseteq> {..<length (sink_heap s)} \<Longrightarrow> logger e < length (heap s) \<Longrightarrow>
   renderable P (filename e) s \<Longrightarrow> \<exists>s'. log_sinks P e ks s = Inr s'"
proof (induction ks arbitrary: s)
  case Nil
  then show ?case by simp
next
  case (Cons k ks)
  from Cons.prems have "k < length (sink_heap s)" by simp
  from sink_log_defined [OF this Cons.prems(2,3)]
  obtain s1 where 1: "sink_log P e k s = Inr s1" by blast
  from sink_log_effect [OF 1] have kept: "sinks_kept s s1" by simp
  with Cons.prems have "set ks \<subseteq> {..<length (sink_heap s1)}" "logger e < length (heap s1)"
    "renderable P (filename e) s1"
    by (auto simp: renderable_kept) (auto simp: sinks_kept_def)
  from Cons.IH [OF this] 1 show ?case by simp
qed

lemma heap_wf_cong: "heap s' = heap s \<Longrightarrow> heap_wf s' = heap_wf s"
  by (simp add: heap_wf_def)

lemma sinks_wf_cong:
  "heap s' = heap s \<Longrightarrow> length (sink_heap s') = length (sink_heap s) \<Longrightarrow> sinks_wf s' = sinks_wf s"
  by (simp add: sinks_wf_def)

lemma registry_wf_cong:
  "heap s' = heap s \<Longrightarrow> root_logger s' = root_logger s \<Longrightarrow> loggers s' = loggers s \<Longrightarrow>
   registry_wf s' = registry_wf s"
  by (simp add: registry_wf_def registered_def)

lemma chain_sinks_unfold:
  assumes "heap_wf s" "a < length (heap s)"
  shows "chain_sinks (heap s) a =
     sinks (heap s ! a) @
       (if additive (heap s ! a)
        then (case parent (heap s ! a) of None \<Rightarrow> [] | Some p \<Rightarrow> chain_sinks (heap s) p)
        else [])"
  using assms heap_wf_parent [OF assms]
  by (subst chain_sinks.simps) (auto split: option.splits)

lemma logEntry_dangling: "\<not> a < length (heap s) \<Longrightarrow> logEntry P e a s = Some (Inl Dangling)"
  by (subst logEntry.simps) (simp add: deref_def)

lemma logEntry_unfold:
  "a < length (heap s) \<Longrightarrow>
   logEntry P e a s =
     (case log_sinks P e (sinks (heap s ! a)) s of
        Inl err \<Rightarrow> Some (Inl err)
      | Inr s1 \<Rightarrow>
          if additive (heap s ! a)
          then (case parent (heap s ! a) of
                  None \<Rightarrow> Some (Inr s1)
                | Some p \<Rightarrow> logEntry P e p s1)
          else Some (Inr s1))"
  by (subst logEntry.simps) (simp add: deref_def)

lemma logEntry_effect:
  assumes "heap_wf s" "a < length (heap s)"
  shows "\<exists>r. logEntry P e a s = Some r
     \<and> (\<forall>s'. r = Inr s' \<longrightarrow> delivered_chain e a s s')
     \<and> (sinks_wf s \<and> logger e < length (heap s) \<and> renderable P (filename e) s
          \<longrightarrow> (\<exists>s'. r = Inr s'))"
  using assms
proof (induction a arbitrary: s rule: less_induct)
  case (less a)
  let ?lg = "heap s ! a"
  note unf = logEntry_unfold [OF less.prems(2), of P e]
  note ch = chain_sinks_unfold [OF less.prems]
  show ?case
  proof (cases "log_sinks P e (sinks ?lg) s")
    case (Inl err)
    have "\<not> (sinks_wf s \<and> logger e < length (heap s) \<and> renderable P (filename e) s)"
    proof
      assume c: "sinks_wf s \<and> logger e < length (heap s) \<and> renderable P (filename e) s"
      with less.prems(2) have "set (sinks ?lg) \<subseteq> {..<length (sink_heap s)}"
        by (auto simp: sinks_wf_def)
      from log_sinks_defined [OF this, of e P] c
      obtain s1 where "log_sinks P e (sinks ?lg) s = Inr s1" by auto
      with Inl show False by simp
    qed
    with Inl unf show ?thesis by simp
  next
    case (Inr s1)
    from log_sinks_effect [OF Inr] have
      kept1: "sinks_kept s s1" and
      w1: "\<And>j. j < length (sink_heap s) \<Longrightarrow> writes s1 j = writes s j +
          (if level_ge (entry_level e) (sink_level (sink_heap s ! j))
           then count_list (sinks ?lg) j else 0)"
      by auto
    from kept1 have h1: "heap s1 = heap s" and len1: "length (sink_heap s1) = length (sink_heap s)"
      and lev1: "\<And>j. j < length (sink_heap s) \<Longrightarrow>
        sink_level (sink_heap s1 ! j) = sink_level (sink_heap s ! j)"
      by (auto simp: sinks_kept_def)
    show ?thesis
    proof (cases "additive ?lg \<and> parent ?lg \<noteq> None")
      case False
      then have r: "logEntry P e a s = Some (Inr s1)"
        using unf Inr by (auto split: option.splits)
      from False have "chain_sinks (heap s) a = sinks ?lg"
        using ch by (auto split: option.splits)
      with kept1 w1 have "delivered_chain e a s s1"
        by (simp add: delivered_chain_def)
      with r show ?thesis by simp
    next
      case True
      then obtain p where p: "parent ?lg = Some p" and add: "additive ?lg" by auto
      from heap_wf_parent [OF less.prems p] have pa: "p < a" .
      with less.prems(2) h1 have pv: "p < length (heap s1)" by simp
      from less.prems(1) have wf1: "heap_wf s1" by (simp add: heap_wf_cong [OF h1])
      from less.IH [OF pa wf1 pv] obtain r where
        ih: "logEntry P e p s1 = Some r
          \<and> (\<forall>s'. r = Inr s' \<longrightarrow> delivered_chain e p s1 s')
          \<and> (sinks_wf s1 \<and> logger e < length (heap s1) \<and> renderable P (filename e) s1
               \<longrightarrow> (\<exists>s'. r = Inr s'))" ..
      from ih have r: "logEntry P e p s1 = Some r" by (rule conjunct1)
      from ih have eff: "\<And>s'. r = Inr s' \<Longrightarrow> delivered_chain e p s1 s'" by simp
      from ih have "def": "sinks_wf s1 \<and> logger e < length (heap s1)
          \<and> renderable P (filename e) s1 \<Longrightarrow> \<exists>s'. r = Inr s'" by simp
      from unf Inr p add r have res: "logEntry P e a s = Some r" by simp
      from ch p add have chain: "chain_sinks (heap s) a = sinks ?lg @ chain_sinks (heap s) p"
        by simp
      have d: "delivered_chain e a s s'" if "r = Inr s'" for s'
      proof -
        from eff [OF that] have kept2: "sinks_kept s1 s'" and
          w2: "\<And>j. j < length (sink_heap s1) \<Longrightarrow> writes s' j = writes s1 j +
              (if level_ge (entry_level e) (sink_level (sink_heap s1 ! j))
               then count_list (chain_sinks (heap s1) p) j else 0)"
          by (auto simp: delivered_chain_def)
        have "writes s' j = writes s j +
              (if level_ge (entry_level e) (sink_level (sink_heap s ! j))
               then count_list (chain_sinks (heap s) a) j else 0)"
          if "j < length (sink_heap s)" for j
          using w1 [OF that] w2 [of j] that len1 lev1 [OF that] h1 chain by simp
        with sinks_kept_trans [OF kept1 kept2] show ?thesis
          by (simp add: delivered_chain_def)
      qed
      have t: "\<exists>s'. r = Inr s'"
        if "sinks_wf s \<and> logger e < length (heap s) \<and> renderable P (filename e) s"
      proof (rule "def")
        from that kept1 h1 len1
        show "sinks_wf s1 \<and> logger e < length (heap s1) \<and> renderable P (filename e) s1"
          by (simp add: renderable_kept sinks_wf_cong [OF h1 len1])
      qed
      have "logEntry P e a s = Some r
         \<and> (\<forall>s'. r = Inr s' \<longrightarrow> delivered_chain e a s s')
         \<and> (sinks_wf s \<and> logger e < length (heap s) \<and> renderable P (filename e) s
              \<longrightarrow> (\<exists>s'. r = Inr s'))"
        using res d t by simp
      then show ?thesis ..
    qed
  qed
qed

lemma on_chain_unfold:
  "on_chain h a x =
     (x = a \<or> (a < length h \<and> additive (h ! a) \<and> (\<exists>p. parent (h ! a) = Some p \<and> on_chain h p x)))"
  by (subst on_chain.simps) auto

lemma on_chain_le: "on_chain (heap s) a x \<Longrightarrow> heap_wf s \<Longrightarrow> x \<le> a"
proof (induction rule: on_chain.induct)
  case (self a)
  then show ?case by simp
next
  case (up a p x)
  with heap_wf_parent [of s a p] show ?case by simp
qed

lemma chain_sinks_on_chain:
  assumes "heap_wf s" "a < length (heap s)"
  shows "(j \<in> set (chain_sinks (heap s) a))
     = (\<exists>x. on_chain (heap s) a x \<and> j \<in> set (sinks (heap s ! x)))"
  using assms(2)
proof (induction a rule: less_induct)
  case (less a)
  note ch = chain_sinks_unfold [OF assms(1) less.prems]
  show ?case
  proof (cases "additive (heap s ! a) \<and> parent (heap s ! a) \<noteq> None")
    case False
    then have "chain_sinks (heap s) a = sinks (heap s ! a)"
      using ch by (auto split: option.splits)
    moreover from False have "on_chain (heap s) a x = (x = a)" for x
      by (subst on_chain_unfold) auto
    ultimately show ?thesis by simp
  next
    case True
    then obtain p where p: "parent (heap s ! a) = Some p" and add: "additive (heap s ! a)"
      by auto
    from heap_wf_parent [OF assms(1) less.prems p] have pa: "p < a" .
    with less.prems have pv: "p < length (heap s)" by simp
    from ch p add have "chain_sinks (heap s) a = sinks (heap s ! a) @ chain_sinks (heap s) p"
      by simp
    moreover have "on_chain (heap s) a x = (x = a \<or> on_chain (heap s) p x)" for x
      using p add less.prems by (subst on_chain_unfold) auto
    ultimately show ?thesis using less.IH [OF pa pv] by auto
  qed
qed

lemma on_chain_linear:
  "on_chain h a b \<Longrightarrow> on_chain h a q \<Longrightarrow> on_chain h b q \<or> on_chain h q b"
proof (induction arbitrary: q rule: on_chain.induct)
  case (self a)
  then show ?case by simp
next
  case (up a p x)
  from up.prems have "q = a \<or> on_chain h p q"
    using up.hyps by (subst (asm) on_chain_unfold) auto
  then show ?case
  proof
    assume "q = a"
    with up.hyps have "on_chain h q x" by (auto intro: on_chain.up)
    then show ?thesis by simp
  next
    assume "on_chain h p q"
    then show ?thesis by (rule up.IH)
  qed
qed

lemma strict_ancestor_less: "strict_ancestor (heap s) q b \<Longrightarrow> heap_wf s \<Longrightarrow> q < b"
proof (induction rule: strict_ancestor.induct)
  case (parent a p)
  then show ?case by (simp add: heap_wf_parent)
next
  case (further a p q)
  with heap_wf_parent [of s a p] show ?case by simp
qed

lemma chain_stops:
  assumes "heap_wf s" "on_chain (heap s) a b" "\<not> additive (heap s ! b)"
    "strict_ancestor (heap s) q b"
  shows "\<not> on_chain (heap s) a q"
proof
  assume "on_chain (heap s) a q"
  from on_chain_linear [OF assms(2) this] show False
  proof
    assume "on_chain (heap s) b q"
    with assms(3) have "q = b" by (subst (asm) on_chain_unfold) auto
    with strict_ancestor_less [OF assms(4,1)] show False by simp
  next
    assume "on_chain (heap s) q b"
    from on_chain_le [OF this assms(1)] strict_ancestor_less [OF assms(4,1)]
    show False by simp
  qed
qed

section \<open>Invariants of the reachable states\<close>

lemma heap_wf_state0: "heap_wf state0"
  by (simp add: heap_wf_def state0_def)

lemma sinks_wf_state0: "sinks_wf state0"
  by (simp add: sinks_wf_def state0_def)

lemma registered_valid:
  assumes "registry_wf s" "registered s nm = Some p"
  shows "p < length (heap s)"
proof (cases "nm = []")
  case True
  with assms(2) have "root_logger s = Some p" by (simp add: registered_def)
  with assms(1) show ?thesis unfolding registry_wf_def by blast
next
  case False
  with assms(2) have "loggers s nm = Some p" by (simp add: registered_def)
  from registry_wf_entry [OF assms(1) this] show ?thesis by simp
qed

lemma heap_wf_append:
  assumes "heap_wf s" "heap s' = heap s @ [lg]"
    "\<And>p. parent lg = Some p \<Longrightarrow> p < length (heap s)"
    "parent lg = None \<Longrightarrow> level lg \<noteq> INHERIT"
  shows "heap_wf s'"
  unfolding heap_wf_def
proof (intro allI impI)
  fix a assume "a < length (heap s')"
  with assms(2) have "a < length (heap s) \<or> a = length (heap s)" by auto
  then show "(\<forall>p. parent (heap s' ! a) = Some p \<longrightarrow> p < a)
      \<and> (parent (heap s' ! a) = None \<longrightarrow> level (heap s' ! a) \<noteq> INHERIT)"
  proof
    assume "a < length (heap s)"
    with assms(1,2) show ?thesis by (simp add: heap_wf_def nth_append)
  next
    assume "a = length (heap s)"
    with assms(2,3,4) show ?thesis by simp
  qed
qed

lemma sinks_wf_append:
  "sinks_wf s \<Longrightarrow> heap s' = heap s @ [lg] \<Longrightarrow> sinks lg = [] \<Longrightarrow>
   sink_heap s' = sink_heap s \<Longrightarrow> sinks_wf s'"
  by (auto simp: sinks_wf_def)

lemma getRootLogger_wf:
  assumes "getRootLogger s = (r, s')"
  shows "(heap_wf s \<longrightarrow> heap_wf s') \<and> (sinks_wf s \<longrightarrow> sinks_wf s')"
proof (cases "root_logger s")
  case (Some x)
  with assms show ?thesis by (simp add: getRootLogger_Some)
next
  case None
  with assms have s': "s' = s\<lparr>heap := heap s @ [basic_logger0],
      root_logger := Some (length (heap s))\<rparr>"
    by (auto simp: getRootLogger_None)
  have "heap_wf s'" if "heap_wf s"
    by (rule heap_wf_append [OF that, of _ basic_logger0]) (simp_all add: s' basic_logger0_def)
  moreover have "sinks_wf s'" if "sinks_wf s"
    by (rule sinks_wf_append [OF that, of _ basic_logger0]) (simp_all add: s' basic_logger0_def)
  ultimately show ?thesis by simp
qed

lemma getLogger_wf:
  "registry_wf s \<Longrightarrow> getLogger nm s = (a, s') \<Longrightarrow>
     (heap_wf s \<longrightarrow> heap_wf s') \<and> (sinks_wf s \<longrightarrow> sinks_wf s')"
proof (induction nm s arbitrary: a s' rule: getLogger_induct)
  case (step nm s)
  show ?case
  proof (cases "nm = []")
    case True
    with step.prems getRootLogger_wf [of s a s'] show ?thesis
      by (simp add: getLogger_root)
  next
    case False
    show ?thesis
    proof (cases "loggers s nm")
      case (Some it)
      with False step.prems show ?thesis by (simp add: getLogger_found)
    next
      case None
      obtain p s1 where par: "getLogger (parent_name nm) s = (p, s1)"
        by (cases "getLogger (parent_name nm) s") auto
      from step.IH [OF False None step.prems(1) par]
      have ih: "heap_wf s \<longrightarrow> heap_wf s1" "sinks_wf s \<longrightarrow> sinks_wf s1" by auto
      from getLogger_registry_wf [OF step.prems(1) par] have wf1: "registry_wf s1" .
      from getLogger_effect [OF par] have "registered s1 (parent_name nm) = Some p" by simp
      from registered_valid [OF wf1 this] have pv: "p < length (heap s1)" .
      from getLogger_new [OF False None par] step.prems
      have s': "s' = s1\<lparr>heap := heap s1 @ [basic_logger2 nm (Some p)],
                        loggers := emplace nm (length (heap s1)) (loggers s1)\<rparr>"
        by simp
      have "heap_wf s'" if "heap_wf s1"
        by (rule heap_wf_append [OF that, of _ "basic_logger2 nm (Some p)"])
          (simp_all add: s' basic_logger2_def pv)
      moreover have "sinks_wf s'" if "sinks_wf s1"
        by (rule sinks_wf_append [OF that, of _ "basic_logger2 nm (Some p)"])
          (simp_all add: s' basic_logger2_def)
      ultimately show ?thesis using ih by blast
    qed
  qed
qed

text \<open>The member functions called through a pointer.\<close>

lemma registry_wf_fields:
  assumes wf: "registry_wf s" and len: "length (heap s') = length (heap s)"
    and par: "\<And>b. b < length (heap s) \<Longrightarrow> parent (heap s' ! b) = parent (heap s ! b)"
    and nam: "\<And>b. b < length (heap s) \<Longrightarrow> name (heap s' ! b) = name (heap s ! b)"
    and root: "root_logger s' = root_logger s" and logs: "loggers s' = loggers s"
  shows "registry_wf s'"
proof -
  have reg: "registered s' x = registered s x" for x
    by (simp add: registered_def root logs)
  have c1: "\<forall>r. root_logger s' = Some r \<longrightarrow>
      r < length (heap s') \<and> parent (heap s' ! r) = None \<and> name (heap s' ! r) = []"
  proof (intro allI impI)
    fix r assume "root_logger s' = Some r"
    with root have "root_logger s = Some r" by simp
    with wf have "r < length (heap s) \<and> parent (heap s ! r) = None \<and> name (heap s ! r) = []"
      unfolding registry_wf_def by blast
    then show "r < length (heap s') \<and> parent (heap s' ! r) = None \<and> name (heap s' ! r) = []"
      by (simp add: len par nam)
  qed
  have c2: "\<forall>nm a. loggers s' nm = Some a \<longrightarrow>
      nm \<noteq> [] \<and> a < length (heap s') \<and> name (heap s' ! a) = nm
      \<and> (\<exists>p. parent (heap s' ! a) = Some p \<and> registered s' (parent_name nm) = Some p)"
  proof (intro allI impI)
    fix nm a assume "loggers s' nm = Some a"
    with logs have "loggers s nm = Some a" by simp
    with wf have "nm \<noteq> [] \<and> a < length (heap s) \<and> name (heap s ! a) = nm
      \<and> (\<exists>p. parent (heap s ! a) = Some p \<and> registered s (parent_name nm) = Some p)"
      by (rule registry_wf_entry)
    then show "nm \<noteq> [] \<and> a < length (heap s') \<and> name (heap s' ! a) = nm
      \<and> (\<exists>p. parent (heap s' ! a) = Some p \<and> registered s' (parent_name nm) = Some p)"
      by (simp add: len par nam reg)
  qed
  have c3: "\<forall>a < length (heap s'). registered s' (name (heap s' ! a)) = Some a"
  proof (intro allI impI)
    fix a assume "a < length (heap s')"
    with len have a: "a < length (heap s)" by simp
    with wf have "registered s (name (heap s ! a)) = Some a"
      unfolding registry_wf_def by blast
    with a show "registered s' (name (heap s' ! a)) = Some a"
      by (simp add: nam reg)
  qed
  from c1 c2 c3 show ?thesis unfolding registry_wf_def by blast
qed

lemma invoke_registry_wf:
  assumes "registry_wf s" "invoke f a s = Inr s'"
    "\<And>lg. parent (f lg) = parent lg \<and> name (f lg) = name lg"
  shows "registry_wf s'"
proof -
  from assms(2) have a: "a < length (heap s)" and s': "s' = s\<lparr>heap := (heap s)[a := f (heap s ! a)]\<rparr>"
    by (auto simp: invoke_def deref_def split: if_splits)
  have "parent (heap s' ! b) = parent (heap s ! b) \<and> name (heap s' ! b) = name (heap s ! b)"
    if "b < length (heap s)" for b
    using that assms(3) by (cases "b = a") (simp_all add: s')
  then show ?thesis
    by (intro registry_wf_fields [OF assms(1)]) (simp_all add: s')
qed

lemma invoke_heap_wf:
  assumes "heap_wf s" "invoke f a s = Inr s'"
    "\<And>lg. parent (f lg) = parent lg
       \<and> (level lg \<noteq> INHERIT \<longrightarrow> level (f lg) = INHERIT \<longrightarrow> parent lg \<noteq> None)"
  shows "heap_wf s'"
proof -
  from assms(2) have a: "a < length (heap s)" and s': "s' = s\<lparr>heap := (heap s)[a := f (heap s ! a)]\<rparr>"
    by (auto simp: invoke_def deref_def split: if_splits)
  show ?thesis
    unfolding heap_wf_def
  proof (intro allI impI)
    fix b assume b: "b < length (heap s')"
    then have bs: "b < length (heap s)" by (simp add: s')
    with assms(1) have old: "\<forall>p. parent (heap s ! b) = Some p \<longrightarrow> p < b"
      "parent (heap s ! b) = None \<longrightarrow> level (heap s ! b) \<noteq> INHERIT"
      by (simp_all add: heap_wf_def)
    show "(\<forall>p. parent (heap s' ! b) = Some p \<longrightarrow> p < b)
      \<and> (parent (heap s' ! b) = None \<longrightarrow> level (heap s' ! b) \<noteq> INHERIT)"
    proof (cases "b = a")
      case True
      with old bs assms(3) [of "heap s ! a"] show ?thesis
        by (auto simp: s')
    next
      case False
      with old show ?thesis by (simp add: s')
    qed
  qed
qed

lemma invoke_sinks_wf:
  assumes "sinks_wf s" "invoke f a s = Inr s'"
    "\<And>lg. set (sinks (f lg)) \<subseteq> set (sinks lg) \<union> {..<length (sink_heap s)}"
  shows "sinks_wf s'"
proof -
  from assms(2) have a: "a < length (heap s)" and s': "s' = s\<lparr>heap := (heap s)[a := f (heap s ! a)]\<rparr>"
    by (auto simp: invoke_def deref_def split: if_splits)
  show ?thesis
    unfolding sinks_wf_def
  proof (intro ballI)
    fix lg k assume lg: "lg \<in> set (heap s')" and k: "k \<in> set (sinks lg)"
    from lg have "lg \<in> set (heap s) \<or> lg = f (heap s ! a)"
      using set_update_subset_insert [of "heap s" a "f (heap s ! a)"] by (auto simp: s')
    then show "k < length (sink_heap s')"
    proof
      assume "lg \<in> set (heap s)"
      with assms(1) k show ?thesis by (auto simp: sinks_wf_def s')
    next
      assume "lg = f (heap s ! a)"
      with k assms(3) [of "heap s ! a"] have "k \<in> set (sinks (heap s ! a)) \<or> k < length (sink_heap s)"
        by auto
      with assms(1) a show ?thesis by (auto simp: sinks_wf_def s')
    qed
  qed
qed

lemma invoke_inv:
  assumes "heap_wf s \<and> sinks_wf s \<and> registry_wf s" "invoke f a s = Inr s'"
    "\<And>lg. parent (f lg) = parent lg \<and> name (f lg) = name lg
       \<and> (level lg \<noteq> INHERIT \<longrightarrow> level (f lg) = INHERIT \<longrightarrow> parent lg \<noteq> None)
       \<and> set (sinks (f lg)) \<subseteq> set (sinks lg) \<union> {..<length (sink_heap s)}"
  shows "heap_wf s' \<and> sinks_wf s' \<and> registry_wf s'"
proof -
  have "heap_wf s'"
    by (rule invoke_heap_wf [OF _ assms(2)]) (use assms(1,3) in auto)
  moreover have "sinks_wf s'"
    by (rule invoke_sinks_wf [OF _ assms(2)]) (use assms(1,3) in auto)
  moreover have "registry_wf s'"
    by (rule invoke_registry_wf [OF _ assms(2)]) (use assms(1,3) in auto)
  ultimately show ?thesis by simp
qed

lemma addSink_props:
  "k < n \<Longrightarrow>
   parent (addSink k lg) = parent lg \<and> name (addSink k lg) = name lg
   \<and> (level lg \<noteq> INHERIT \<longrightarrow> level (addSink k lg) = INHERIT \<longrightarrow> parent lg \<noteq> None)
   \<and> set (sinks (addSink k lg)) \<subseteq> set (sinks lg) \<union> {..<n}"
  by (auto simp: addSink_def)

lemma removeSink_props:
  "parent (removeSink k lg) = parent lg \<and> name (removeSink k lg) = name lg
   \<and> (level lg \<noteq> INHERIT \<longrightarrow> level (removeSink k lg) = INHERIT \<longrightarrow> parent lg \<noteq> None)
   \<and> set (sinks (removeSink k lg)) \<subseteq> set (sinks lg) \<union> {..<n}"
  using set_remove1_subset [of k "sinks lg"] by (auto simp: removeSink_def)

lemma setLevel_props:
  "parent (setLevel l lg) = parent lg \<and> name (setLevel l lg) = name lg
   \<and> (level lg \<noteq> INHERIT \<longrightarrow> level (setLevel l lg) = INHERIT \<longrightarrow> parent lg \<noteq> None)
   \<and> set (sinks (setLevel l lg)) \<subseteq> set (sinks lg) \<union> {..<n}"
  by (simp add: setLevel_def)

lemma setAdditive_props:
  "parent (setAdditive b lg) = parent lg \<and> name (setAdditive b lg) = name lg
   \<and> (level lg \<noteq> INHERIT \<longrightarrow> level (setAdditive b lg) = INHERIT \<longrightarrow> parent lg \<noteq> None)
   \<and> set (sinks (setAdditive b lg)) \<subseteq> set (sinks lg) \<union> {..<n}"
  by (simp add: setAdditive_def)

lemma sink_invoke_effect:
  assumes "sink_invoke f k s = Inr s'"
  shows "heap s' = heap s \<and> root_logger s' = root_logger s \<and> loggers s' = loggers s
    \<and> length (sink_heap s') = length (sink_heap s)"
  using assms by (auto simp: sink_invoke_def split: option.splits)

lemma logEntry_sinks_kept:
  assumes "heap_wf s" "logEntry P e a s = Some (Inr s')"
  shows "sinks_kept s s'"
proof (cases "a < length (heap s)")
  case True
  from logEntry_effect [OF assms(1) True, of P e] assms(2) show ?thesis
    by (auto simp: delivered_chain_def)
next
  case False
  with assms(2) show ?thesis by (simp add: logEntry_dangling)
qed

lemma sinks_kept_inv:
  assumes "sinks_kept s s'"
  shows "heap_wf s' = heap_wf s" "sinks_wf s' = sinks_wf s" "registry_wf s' = registry_wf s"
proof -
  from assms have h: "heap s' = heap s" and l: "length (sink_heap s') = length (sink_heap s)"
    and r: "root_logger s' = root_logger s" and g: "loggers s' = loggers s"
    by (auto simp: sinks_kept_def)
  show "heap_wf s' = heap_wf s" by (rule heap_wf_cong [OF h])
  show "sinks_wf s' = sinks_wf s" by (rule sinks_wf_cong [OF h l])
  show "registry_wf s' = registry_wf s" by (rule registry_wf_cong [OF h r g])
qed

lemma reachable_inv: "reachable P s \<Longrightarrow> heap_wf s \<and> sinks_wf s \<and> registry_wf s"
proof (induction rule: reachable.induct)
  case start
  show ?case by (simp add: heap_wf_state0 sinks_wf_state0 registry_wf_state0)
next
  case (tick s t)
  have "heap_wf (s\<lparr>clock := t\<rparr>) = heap_wf s" by (rule heap_wf_cong) simp
  moreover have "sinks_wf (s\<lparr>clock := t\<rparr>) = sinks_wf s" by (rule sinks_wf_cong) simp_all
  moreover have "registry_wf (s\<lparr>clock := t\<rparr>) = registry_wf s"
    by (rule registry_wf_cong) simp_all
  ultimately show ?case using tick.IH by simp
next
  case (initialize s)
  obtain t s' where g: "GetStartTime s = (t, s')" by (cases "GetStartTime s") auto
  from GetStartTime_frame [OF g] have u: "heap s' = heap s" "sink_heap s' = sink_heap s"
    "root_logger s' = root_logger s" "loggers s' = loggers s"
    by (auto simp: unchanged_but_start_def)
  have "heap_wf s' = heap_wf s" by (rule heap_wf_cong [OF u(1)])
  moreover have "sinks_wf s' = sinks_wf s" by (rule sinks_wf_cong) (simp_all add: u)
  moreover have "registry_wf s' = registry_wf s" by (rule registry_wf_cong [OF u(1,3,4)])
  ultimately show ?case using initialize.IH g by simp
next
  case (getRootLogger s)
  obtain r s' where g: "getRootLogger s = (r, s')" by (cases "getRootLogger s") auto
  with getRootLogger.IH getRootLogger_wf [OF g] getRootLogger_registry_wf [of s r s']
  show ?case by simp
next
  case (getLogger s nm)
  obtain a s' where g: "getLogger nm s = (a, s')" by (cases "getLogger nm s") auto
  with getLogger.IH getLogger_wf [of s nm a s'] getLogger_registry_wf [of s nm a s']
  show ?case by simp
next
  case (create s)
  have "heap_wf (snd (create s)) = heap_wf s" by (rule heap_wf_cong) (simp add: create_def)
  moreover have "registry_wf (snd (create s)) = registry_wf s"
    by (rule registry_wf_cong) (simp_all add: create_def)
  moreover have "sinks_wf s \<Longrightarrow> sinks_wf (snd (create s))"
    by (auto simp: sinks_wf_def create_def less_Suc_eq)
  ultimately show ?case using create.IH by simp
next
  case (setFormatter s f k s')
  from sink_invoke_effect [OF setFormatter.hyps(2)] have u: "heap s' = heap s"
    "root_logger s' = root_logger s" "loggers s' = loggers s"
    "length (sink_heap s') = length (sink_heap s)" by auto
  from setFormatter.IH show ?case
    by (simp add: heap_wf_cong [OF u(1)] sinks_wf_cong [OF u(1,4)] registry_wf_cong [OF u(1,2,3)])
next
  case (sink_setLevel s l k s')
  from sink_invoke_effect [OF sink_setLevel.hyps(2)] have u: "heap s' = heap s"
    "root_logger s' = root_logger s" "loggers s' = loggers s"
    "length (sink_heap s') = length (sink_heap s)" by auto
  from sink_setLevel.IH show ?case
    by (simp add: heap_wf_cong [OF u(1)] sinks_wf_cong [OF u(1,4)] registry_wf_cong [OF u(1,2,3)])
next
  case (addSink s k a s')
  show ?case
    by (rule invoke_inv [OF addSink.IH addSink.hyps(3)]) (rule addSink_props [OF addSink.hyps(2)])
next
  case (removeSink s k a s')
  show ?case
    by (rule invoke_inv [OF removeSink.IH removeSink.hyps(2)]) (rule removeSink_props)
next
  case (setLevel s l a s')
  show ?case
    by (rule invoke_inv [OF setLevel.IH setLevel.hyps(2)]) (rule setLevel_props)
next
  case (setAdditive s b a s')
  show ?case
    by (rule invoke_inv [OF setAdditive.IH setAdditive.hyps(2)]) (rule setAdditive_props)
next
  case (log s lvl m ctx a s')
  from log.IH have wf: "heap_wf s" by simp
  from log.hyps(2) have "s' = s \<or> (\<exists>e. logEntry P e a s = Some (Inr s'))"
    by (auto simp: log_def split: option.splits sum.splits if_splits)
  then show ?case
  proof
    assume "s' = s"
    with log.IH show ?thesis by simp
  next
    assume "\<exists>e. logEntry P e a s = Some (Inr s')"
    then obtain e where "logEntry P e a s = Some (Inr s')" ..
    from sinks_kept_inv [OF logEntry_sinks_kept [OF wf this]] log.IH show ?thesis by simp
  qed
next
  case (destroy s ls s')
  from destroy.IH have wf: "heap_wf s" by simp
  from destroy.hyps(2) have "logEntry P ((entry ls)\<lparr>msg := str (stream ls)\<rparr>) (logger (entry ls)) s
      = Some (Inr s')"
    by (simp add: destroy_def)
  from sinks_kept_inv [OF logEntry_sinks_kept [OF wf this]] destroy.IH show ?case by simp
next
  case (L3PP_LOG s lvl ch expr ctx s')
  obtain a s1 where g: "l3pp_getLogger ch s = (a, s1)" by (cases "l3pp_getLogger ch s") auto
  have inv1: "heap_wf s1 \<and> sinks_wf s1 \<and> registry_wf s1"
  proof (cases ch)
    case (by_name nm)
    with g have "getLogger nm s = (a, s1)" by simp
    with L3PP_LOG.IH getLogger_wf [of s nm a s1] getLogger_registry_wf [of s nm a s1]
    show ?thesis by simp
  next
    case (by_pointer b)
    with g L3PP_LOG.IH show ?thesis by simp
  qed
  from L3PP_LOG.hyps(2) g have "s' = s1 \<or> (\<exists>ls. destroy P ls s1 = Some (Inr s'))"
    by (auto simp: L3PP_LOG_def split: option.splits sum.splits if_splits)
  then show ?case
  proof
    assume "s' = s1"
    with inv1 show ?thesis by simp
  next
    assume "\<exists>ls. destroy P ls s1 = Some (Inr s')"
    then obtain ls where "destroy P ls s1 = Some (Inr s')" ..
    then have "logEntry P ((entry ls)\<lparr>msg := str (stream ls)\<rparr>) (logger (entry ls)) s1
      = Some (Inr s')"
      by (simp add: destroy_def)
    from sinks_kept_inv [OF logEntry_sinks_kept [OF _ this]] inv1 show ?thesis by simp
  qed
qed

section \<open>Levels, registry, delivery and streams: the main results\<close>

lemma reachable_example: "reachable P (snd (getLogger ''a.b'' state0))"
  by (intro reachable.getLogger reachable.start)

text \<open>
  Claim C6. In every reachable state and for every logger: if its stored level is not
  \<open>INHERIT\<close>, \<open>getLevel\<close> returns the stored level; in any case \<open>getLevel\<close> returns,
  and what it returns is the stored level of the nearest ancestor (the logger itself
  counted as its 0-th ancestor) whose stored level is not \<open>INHERIT\<close>, every ancestor
  nearer than this one having the stored level \<open>INHERIT\<close>. The stored level of the root
  is never \<open>INHERIT\<close>.
\<close>

theorem getLevel_resolves:
  assumes "reachable P s" "a < length (heap s)"
  shows "(level (heap s ! a) \<noteq> INHERIT \<longrightarrow> getLevel a s = Some (Inr (level (heap s ! a))))
    \<and> (\<exists>n b. nth_ancestor (heap s) a n = Some b \<and> level (heap s ! b) \<noteq> INHERIT
         \<and> (\<forall>m<n. \<exists>c. nth_ancestor (heap s) a m = Some c \<and> level (heap s ! c) = INHERIT)
         \<and> getLevel a s = Some (Inr (level (heap s ! b))))
    \<and> (\<forall>r. root_logger s = Some r \<longrightarrow> level (heap s ! r) \<noteq> INHERIT)"
proof -
  from reachable_inv [OF assms(1)] have wf: "heap_wf s" and reg: "registry_wf s" by simp_all
  from getLevel_nearest [OF wf assms(2)] obtain n b where
    "nth_ancestor (heap s) a n = Some b" "level (heap s ! b) \<noteq> INHERIT"
    "\<forall>m<n. \<exists>c. nth_ancestor (heap s) a m = Some c \<and> c < length (heap s)
        \<and> level (heap s ! c) = INHERIT"
    "getLevel a s = Some (Inr (level (heap s ! b)))" by blast
  then have 2: "\<exists>n b. nth_ancestor (heap s) a n = Some b \<and> level (heap s ! b) \<noteq> INHERIT
         \<and> (\<forall>m<n. \<exists>c. nth_ancestor (heap s) a m = Some c \<and> level (heap s ! c) = INHERIT)
         \<and> getLevel a s = Some (Inr (level (heap s ! b)))" by blast
  have 3: "level (heap s ! r) \<noteq> INHERIT" if "root_logger s = Some r" for r
  proof -
    from reg that have "r < length (heap s)" "parent (heap s ! r) = None"
      unfolding registry_wf_def by blast+
    with wf show ?thesis unfolding heap_wf_def by blast
  qed
  from 2 3 assms(2) show ?thesis by (simp add: getLevel_concrete)
qed

text \<open>
  After \<open>getLogger("a.b")\<close> in the initial state the loggers \<open>"a.b"\<close> and \<open>"a"\<close>
  inherit, and \<open>"a.b"\<close> resolves to the level \<open>WARN\<close> of the root, its second ancestor.
\<close>

theorem getLevel_resolves_witness:
  "reachable posix (snd (getLogger ''a.b'' state0))
   \<and> 2 < length (heap (snd (getLogger ''a.b'' state0)))
   \<and> level (heap (snd (getLogger ''a.b'' state0)) ! 2) = INHERIT
   \<and> level (heap (snd (getLogger ''a.b'' state0)) ! 1) = INHERIT
   \<and> level (heap (snd (getLogger ''a.b'' state0)) ! 0) = WARN
   \<and> nth_ancestor (heap (snd (getLogger ''a.b'' state0))) 2 2 = Some 0
   \<and> getLevel 2 (snd (getLogger ''a.b'' state0)) = Some (Inr WARN)
   \<and> (\<exists>n b. nth_ancestor (heap (snd (getLogger ''a.b'' state0))) 2 n = Some b
         \<and> getLevel 2 (snd (getLogger ''a.b'' state0))
             = Some (Inr (level (heap (snd (getLogger ''a.b'' state0)) ! b))))"
proof -
  let ?s = "snd (getLogger ''a.b'' state0)"
  have h: "heap ?s = [basic_logger0, basic_logger2 ''a'' (Some 0), basic_logger2 ''a.b'' (Some 1)]"
    by (simp add: getLogger.simps getRootLogger_def new_logger_def state0_def emplace_def)
  have r: "reachable posix ?s" by (rule reachable_example)
  have l: "2 < length (heap ?s)" by (simp add: h)
  from getLevel_resolves [OF r l] have
    "\<exists>n b. nth_ancestor (heap ?s) 2 n = Some b
         \<and> getLevel 2 ?s = Some (Inr (level (heap ?s ! b)))" by blast
  moreover have "getLevel 2 ?s = Some (Inr WARN)"
    by (simp add: getLevel.simps h deref_def basic_logger0_def basic_logger2_def)
  moreover have "nth_ancestor (heap ?s) 2 2 = Some 0"
    by (simp add: h deref_def basic_logger0_def basic_logger2_def eval_nat_numeral)
  ultimately show ?thesis using r l
    by (simp add: h basic_logger0_def basic_logger2_def)
qed

lemma extends_registered: "extends s s' \<Longrightarrow> registered s nm = Some a \<Longrightarrow> registered s' nm = Some a"
  by (auto simp: extends_def registered_def split: if_splits)

lemma getLogger_registered_known: "registered s nm = Some a \<Longrightarrow> getLogger nm s = (a, s)"
  by (cases "nm = []") (simp_all add: registered_def getLogger_root getRootLogger_Some getLogger_found)

lemma getLoggers_extends: "extends s (getLoggers nms s)"
proof (induction nms arbitrary: s)
  case Nil
  show ?case by (simp add: getLoggers_def extends_refl)
next
  case (Cons nm nms)
  obtain a s1 where g: "getLogger nm s = (a, s1)" by (cases "getLogger nm s") auto
  from getLogger_effect [OF g] have "extends s s1" by simp
  moreover from Cons.IH [of s1] g have "extends s1 (getLoggers (nm # nms) s)"
    by (simp add: getLoggers_def)
  ultimately show ?case by (rule extends_trans)
qed

text \<open>
  Claim C7. For every name, the empty one included, and every state: a second call of
  \<open>getLogger\<close> with the same name returns the same pointer and leaves the state as
  the first call left it; the pointer returned is the one the registry holds for the
  name (the root for the empty name); and after any further calls of \<open>getLogger\<close>,
  with any names, a call with this name still returns the same pointer.
\<close>

theorem getLogger_idempotent:
  "getLogger nm (snd (getLogger nm s)) = getLogger nm s
   \<and> registered (snd (getLogger nm s)) nm = Some (fst (getLogger nm s))
   \<and> fst (getLogger nm (getLoggers nms (snd (getLogger nm s)))) = fst (getLogger nm s)"
proof -
  obtain a s' where r: "getLogger nm s = (a, s')" by (cases "getLogger nm s") auto
  from getLogger_effect [OF r] have reg: "registered s' nm = Some a" by simp
  from extends_registered [OF getLoggers_extends reg]
  have "registered (getLoggers nms s') nm = Some a" .
  then have "getLogger nm (getLoggers nms s') = (a, getLoggers nms s')"
    by (rule getLogger_registered_known)
  with r reg getLogger_registered_known [OF reg] show ?thesis by simp
qed

lemma getLogger_injective:
  assumes "registry_wf s" "registered s nm = Some a" "registered s nm' = Some a"
  shows "nm = nm'"
proof -
  have n: "name (heap s ! a) = x" if "registered s x = Some a" for x
  proof (cases "x = []")
    case True
    with that have "root_logger s = Some a" by (simp add: registered_def)
    with assms(1) True show ?thesis unfolding registry_wf_def by blast
  next
    case False
    with that have "loggers s x = Some a" by (simp add: registered_def)
    from registry_wf_entry [OF assms(1) this] show ?thesis by simp
  qed
  from n [OF assms(2)] n [OF assms(3)] show ?thesis by simp
qed

text \<open>
  Claim C8. A call \<open>getLogger(nm)\<close> in a reachable state leads to a reachable state
  in which the loggers that existed are kept, the registered names are those registered
  before together with \<open>nm\<close> and every non-empty dotted prefix of \<open>nm\<close>, and the number
  of loggers created is the number of these names that were not registered (plus one
  for the root if it did not exist): one logger for each missing prefix. In the new
  state, as in every reachable state, a logger registered under a name carries this
  name and its parent is the logger registered under the parent name, the root for the
  empty parent name; every logger of the store is the one registered under its name.
  The parent name of a name without a dot is empty, and that of a name with a dot is
  its longest dotted prefix.
\<close>

theorem getLogger_creates_missing_ancestors:
  assumes "reachable P s" "getLogger nm s = (a, s')"
  shows "reachable P s'
    \<and> (\<exists>new. heap s' = heap s @ new)
    \<and> (\<forall>p b. loggers s p = Some b \<longrightarrow> loggers s' p = Some b)
    \<and> dom (loggers s') = dom (loggers s) \<union> {p. p \<noteq> [] \<and> (p = nm \<or> dotted_prefix p nm)}
    \<and> length (heap s') = length (heap s)
         + card ({p. p \<noteq> [] \<and> (p = nm \<or> dotted_prefix p nm)} - dom (loggers s))
         + (if root_logger s = None then 1 else 0)
    \<and> (\<forall>p b. loggers s' p = Some b \<longrightarrow>
          b < length (heap s') \<and> name (heap s' ! b) = p
          \<and> (\<exists>q. parent (heap s' ! b) = Some q \<and> registered s' (parent_name p) = Some q))
    \<and> (\<forall>b < length (heap s'). registered s' (name (heap s' ! b)) = Some b)
    \<and> (\<forall>p. (CHR ''.'' \<notin> set p \<longrightarrow> parent_name p = [])
          \<and> (CHR ''.'' \<in> set p \<longrightarrow>
               dotted_prefix (parent_name p) p
               \<and> (\<forall>q. dotted_prefix q p \<longrightarrow> length q \<le> length (parent_name p))))"
proof -
  from reachable_inv [OF assms(1)] have wf: "registry_wf s" by simp
  from reachable.getLogger [OF assms(1), of nm] assms(2) have 1: "reachable P s'" by simp
  from reachable_inv [OF 1] have wf': "registry_wf s'" by simp
  from getLogger_effect [OF assms(2)] have ext: "extends s s'" by simp
  then have 2: "\<exists>new. heap s' = heap s @ new"
    and 3: "\<forall>p b. loggers s p = Some b \<longrightarrow> loggers s' p = Some b"
    by (simp_all add: extends_def)
  from getLogger_dom [OF wf assms(2)] have
    4: "dom (loggers s') = dom (loggers s) \<union> {p. p \<noteq> [] \<and> (p = nm \<or> dotted_prefix p nm)}"
    and 5: "length (heap s') = length (heap s)
         + card ({p. p \<noteq> [] \<and> (p = nm \<or> dotted_prefix p nm)} - dom (loggers s))
         + (if root_logger s = None then 1 else 0)"
    by (simp_all add: ancestry_set)
  have 6: "\<forall>p b. loggers s' p = Some b \<longrightarrow>
          b < length (heap s') \<and> name (heap s' ! b) = p
          \<and> (\<exists>q. parent (heap s' ! b) = Some q \<and> registered s' (parent_name p) = Some q)"
    using registry_wf_entry [OF wf'] by blast
  from wf' have 7: "\<forall>b < length (heap s'). registered s' (name (heap s' ! b)) = Some b"
    unfolding registry_wf_def by blast
  have 8: "\<forall>p. (CHR ''.'' \<notin> set p \<longrightarrow> parent_name p = [])
          \<and> (CHR ''.'' \<in> set p \<longrightarrow>
               dotted_prefix (parent_name p) p
               \<and> (\<forall>q. dotted_prefix q p \<longrightarrow> length q \<le> length (parent_name p)))"
  proof
    fix p
    from parent_name_longest [of p]
    show "(CHR ''.'' \<notin> set p \<longrightarrow> parent_name p = [])
          \<and> (CHR ''.'' \<in> set p \<longrightarrow>
               dotted_prefix (parent_name p) p
               \<and> (\<forall>q. dotted_prefix q p \<longrightarrow> length q \<le> length (parent_name p)))"
      by blast
  qed
  show ?thesis by (intro conjI 1 2 3 4 5 6 7 8)
qed

text \<open>
  In the initial state \<open>getLogger("app.module.sub")\<close> creates the root and the loggers
  \<open>"app"\<close>, \<open>"app.module"\<close> and \<open>"app.module.sub"\<close>, each the parent of the next.
\<close>

theorem getLogger_creates_missing_ancestors_witness:
  "reachable posix state0
   \<and> getLogger ''app.module.sub'' state0 = (3, snd (getLogger ''app.module.sub'' state0))
   \<and> reachable posix (snd (getLogger ''app.module.sub'' state0))
   \<and> dom (loggers (snd (getLogger ''app.module.sub'' state0)))
       = {''app'', ''app.module'', ''app.module.sub''}
   \<and> map name (heap (snd (getLogger ''app.module.sub'' state0)))
       = ['''', ''app'', ''app.module'', ''app.module.sub'']
   \<and> map parent (heap (snd (getLogger ''app.module.sub'' state0)))
       = [None, Some 0, Some 1, Some 2]"
proof -
  let ?s = "snd (getLogger ''app.module.sub'' state0)"
  have g: "getLogger ''app.module.sub'' state0 = (3, ?s)"
    by (simp add: getLogger.simps getRootLogger_def new_logger_def state0_def emplace_def)
  from getLogger_creates_missing_ancestors [OF reachable.start g, of posix]
  have "reachable posix ?s" by simp
  moreover have "dom (loggers ?s) = {''app'', ''app.module'', ''app.module.sub''}"
    by (auto simp: getLogger.simps getRootLogger_def new_logger_def state0_def emplace_def)
  moreover have "map name (heap ?s) = ['''', ''app'', ''app.module'', ''app.module.sub'']"
    by (simp add: getLogger.simps getRootLogger_def new_logger_def state0_def emplace_def
        basic_logger0_def basic_logger2_def)
  moreover have "map parent (heap ?s) = [None, Some 0, Some 1, Some 2]"
    by (simp add: getLogger.simps getRootLogger_def new_logger_def state0_def emplace_def
        basic_logger0_def basic_logger2_def)
  ultimately show ?thesis using g reachable.start [of posix] by simp
qed

lemma level_less_INHERIT: "\<not> level_less INHERIT l"
  by (cases l) (simp_all add: level_less_def)

lemma level_ge_INHERIT: "level_ge INHERIT l"
  by (cases l) (simp_all add: level_ge_def)

lemma level_le_less: "level_le l lvl = (\<not> level_less lvl l)"
  by (auto simp: level_le_def level_less_def)

lemma delivered_chain_iff:
  assumes "heap_wf s" "a < length (heap s)" "delivered_chain e a s s'" "k < length (sink_heap s)"
  shows "(writes s k < writes s' k)
     = ((\<exists>x. on_chain (heap s) a x \<and> k \<in> set (sinks (heap s ! x)))
        \<and> level_ge (entry_level e) (sink_level (sink_heap s ! k)))"
proof -
  from assms(3,4) have "writes s' k = writes s k +
      (if level_ge (entry_level e) (sink_level (sink_heap s ! k))
       then count_list (chain_sinks (heap s) a) k else 0)"
    by (simp add: delivered_chain_def)
  moreover have "(0 < count_list (chain_sinks (heap s) a) k) = (k \<in> set (chain_sinks (heap s) a))"
    using count_list_0_iff [of "chain_sinks (heap s) a" k] by auto
  ultimately show ?thesis
    by (simp add: chain_sinks_on_chain [OF assms(1,2)])
qed

lemma delivered_chain_mono:
  assumes "delivered_chain e a s s'"
  shows "writes s k \<le> writes s' k"
proof (cases "k < length (sink_heap s)")
  case True
  with assms show ?thesis by (simp add: delivered_chain_def)
next
  case False
  with assms show ?thesis by (simp add: delivered_chain_def sinks_kept_def writes_def deref_def)
qed

lemma logEntry_delivers:
  assumes "heap_wf s" "sinks_wf s" "a < length (heap s)" "logger e = a"
    "renderable P (filename e) s"
  shows "\<exists>s'. logEntry P e a s = Some (Inr s') \<and> delivered_chain e a s s'"
proof -
  from logEntry_effect [OF assms(1,3), of P e] obtain r where
    r: "logEntry P e a s = Some r
     \<and> (\<forall>s'. r = Inr s' \<longrightarrow> delivered_chain e a s s')
     \<and> (sinks_wf s \<and> logger e < length (heap s) \<and> renderable P (filename e) s
          \<longrightarrow> (\<exists>s'. r = Inr s'))" ..
  with assms obtain s' where "r = Inr s'" by auto
  with r show ?thesis by simp
qed

lemma log_effect:
  assumes "heap_wf s" "sinks_wf s" "a < length (heap s)" "renderable P (filename context) s"
  shows "\<exists>l. getLevel a s = Some (Inr l)
    \<and> (level_less lvl l \<longrightarrow> log P lvl m context a s = Some (Inr s))
    \<and> (\<not> level_less lvl l \<longrightarrow>
         (\<exists>s'. log P lvl m context a s = Some (Inr s')
            \<and> delivered_chain (basic_log_entry4 (clock s) context a lvl m) a s s'))"
proof -
  from getLevel_total [OF assms(1,3)] obtain l where l: "getLevel a s = Some (Inr l)" by blast
  let ?e = "basic_log_entry4 (clock s) context a lvl m"
  have "logger ?e = a" "renderable P (filename ?e) s"
    using assms(4) by (simp_all add: basic_log_entry4_def)
  from logEntry_delivers [OF assms(1,2,3) this]
  obtain s' where "logEntry P ?e a s = Some (Inr s')" "delivered_chain ?e a s s'" by blast
  with l have "\<not> level_less lvl l \<longrightarrow>
         (\<exists>s'. log P lvl m context a s = Some (Inr s') \<and> delivered_chain ?e a s s')"
    by (simp add: log_def)
  moreover from l have "level_less lvl l \<longrightarrow> log P lvl m context a s = Some (Inr s)"
    by (simp add: log_def)
  ultimately show ?thesis using l by simp
qed

text \<open>
  The routing of the call \<open>log(lvl, m, context)\<close>. In a reachable state, for a logger
  \<open>a\<close>, a level \<open>lvl\<close>, a message and a context whose file name every formatter in use
  is defined on, the call returns, and a sink \<open>k\<close> receives a write if and only if \<open>k\<close>
  is a sink of some logger reached from \<open>a\<close> by parent steps that leave additive
  loggers only, \<open>lvl\<close> is not below the effective level of \<open>a\<close>, and \<open>lvl\<close> is not below
  the level of \<open>k\<close>. No sink loses a write. If a logger \<open>b\<close> reached in this way is not
  additive, a sink that only strict ancestors of \<open>b\<close> have receives nothing.
\<close>

theorem entry_delivered_iff:
  assumes "reachable P s" "a < length (heap s)" "renderable P (filename context) s"
  shows "\<exists>s' l. log P lvl m context a s = Some (Inr s') \<and> getLevel a s = Some (Inr l)
    \<and> (\<forall>k < length (sink_heap s).
          (writes s k < writes s' k)
          = ((\<exists>x. on_chain (heap s) a x \<and> k \<in> set (sinks (heap s ! x)))
             \<and> level_ge lvl l \<and> level_ge lvl (sink_level (sink_heap s ! k))))
    \<and> (\<forall>k. writes s k \<le> writes s' k)
    \<and> (\<forall>b k. k < length (sink_heap s) \<and> on_chain (heap s) a b \<and> \<not> additive (heap s ! b)
          \<and> (\<forall>x < length (heap s). k \<in> set (sinks (heap s ! x))
                \<longrightarrow> strict_ancestor (heap s) x b)
          \<longrightarrow> writes s' k = writes s k)"
proof -
  from reachable_inv [OF assms(1)] have wf: "heap_wf s" and swf: "sinks_wf s" by simp_all
  from log_effect [OF wf swf assms(2,3), of lvl m] obtain l where
    l: "getLevel a s = Some (Inr l)" and
    supp: "level_less lvl l \<Longrightarrow> log P lvl m context a s = Some (Inr s)" and
    deliv: "\<not> level_less lvl l \<Longrightarrow> \<exists>s'. log P lvl m context a s = Some (Inr s')
            \<and> delivered_chain (basic_log_entry4 (clock s) context a lvl m) a s s'"
    by blast
  have ge: "level_ge lvl l = (\<not> level_less lvl l)"
    by (auto simp: level_ge_def level_less_def)
  obtain s' where s': "log P lvl m context a s = Some (Inr s')"
    and iff: "\<And>k. k < length (sink_heap s) \<Longrightarrow> (writes s k < writes s' k)
          = ((\<exists>x. on_chain (heap s) a x \<and> k \<in> set (sinks (heap s ! x)))
             \<and> level_ge lvl l \<and> level_ge lvl (sink_level (sink_heap s ! k)))"
    and mono: "\<And>k. writes s k \<le> writes s' k"
  proof (cases "level_less lvl l")
    case True
    with supp ge that [of s] show ?thesis by simp
  next
    case False
    from deliv [OF False] obtain s' where
      1: "log P lvl m context a s = Some (Inr s')" and
      2: "delivered_chain (basic_log_entry4 (clock s) context a lvl m) a s s'" by blast
    have "(writes s k < writes s' k)
          = ((\<exists>x. on_chain (heap s) a x \<and> k \<in> set (sinks (heap s ! x)))
             \<and> level_ge lvl l \<and> level_ge lvl (sink_level (sink_heap s ! k)))"
      if "k < length (sink_heap s)" for k
      using delivered_chain_iff [OF wf assms(2) 2 that] False ge
      by (simp add: basic_log_entry4_def)
    with 1 delivered_chain_mono [OF 2] that [of s'] show ?thesis by blast
  qed
  have stop: "writes s' k = writes s k"
    if k: "k < length (sink_heap s)" and b: "on_chain (heap s) a b" "\<not> additive (heap s ! b)"
      and anc: "\<forall>x < length (heap s). k \<in> set (sinks (heap s ! x))
          \<longrightarrow> strict_ancestor (heap s) x b" for b k
  proof -
    have "\<not> (\<exists>x. on_chain (heap s) a x \<and> k \<in> set (sinks (heap s ! x)))"
    proof
      assume "\<exists>x. on_chain (heap s) a x \<and> k \<in> set (sinks (heap s ! x))"
      then obtain x where x: "on_chain (heap s) a x" "k \<in> set (sinks (heap s ! x))" by blast
      from on_chain_le [OF x(1) wf] assms(2) have "x < length (heap s)" by simp
      with anc x(2) have "strict_ancestor (heap s) x b" by simp
      from chain_stops [OF wf b this] x(1) show False by simp
    qed
    with iff [OF k] have "\<not> writes s k < writes s' k" by simp
    with mono [of k] show ?thesis by simp
  qed
  have 1: "\<forall>k < length (sink_heap s).
          (writes s k < writes s' k)
          = ((\<exists>x. on_chain (heap s) a x \<and> k \<in> set (sinks (heap s ! x)))
             \<and> level_ge lvl l \<and> level_ge lvl (sink_level (sink_heap s ! k)))"
    using iff by blast
  have 2: "\<forall>k. writes s k \<le> writes s' k" using mono by blast
  have 3: "\<forall>b k. k < length (sink_heap s) \<and> on_chain (heap s) a b \<and> \<not> additive (heap s ! b)
          \<and> (\<forall>x < length (heap s). k \<in> set (sinks (heap s ! x))
                \<longrightarrow> strict_ancestor (heap s) x b)
          \<longrightarrow> writes s' k = writes s k"
    using stop by blast
  show ?thesis
    by (intro exI [of _ s'] exI [of _ l] conjI s' l 1 2 3)
qed

lemma reachable_root_with_sink: "reachable P root_with_sink"
proof -
  have 1: "reachable P (snd (getRootLogger state0))" by (intro reachable.intros)
  then have 2: "reachable P (snd (create (snd (getRootLogger state0))))" by (rule reachable.create)
  have 3: "0 < length (sink_heap (snd (create (snd (getRootLogger state0)))))"
    by (simp add: create_def)
  have 4: "invoke (addSink 0) 0 (snd (create (snd (getRootLogger state0)))) = Inr root_with_sink"
    by (simp add: invoke_def create_def getRootLogger_def new_logger_def state0_def deref_def
        root_with_sink_def)
  from reachable.addSink [OF 2 3 4] show ?thesis .
qed

lemma reachable_child_with_sink: "reachable P child_with_sink"
proof -
  let ?s1 = "snd (getLogger ''a'' root_with_sink)"
  let ?s2 = "snd (create ?s1)"
  have s1: "?s1 = root_with_sink\<lparr>heap := heap root_with_sink @ [basic_logger2 ''a'' (Some 0)],
      loggers := [''a'' \<mapsto> 1]\<rparr>"
    by (simp add: getLogger.simps getRootLogger_def root_with_sink_def emplace_def new_logger_def)
  have 1: "reachable P ?s1" by (intro reachable.getLogger reachable_root_with_sink)
  then have 2: "reachable P ?s2" by (rule reachable.create)
  have 3: "1 < length (sink_heap ?s2)"
    unfolding s1 by (simp add: create_def root_with_sink_def)
  obtain s3 where 4: "invoke (addSink 1) 1 ?s2 = Inr s3"
    and s3: "s3 = ?s2\<lparr>heap := [addSink 0 basic_logger0, addSink 1 (basic_logger2 ''a'' (Some 0))]\<rparr>"
    unfolding s1 by (simp add: invoke_def create_def root_with_sink_def deref_def)
  from reachable.addSink [OF 2 3 4] have 5: "reachable P s3" .
  have 6: "invoke (setAdditive False) 1 s3 = Inr child_with_sink"
    unfolding s3 s1
    by (simp add: invoke_def create_def root_with_sink_def deref_def child_with_sink_def)
  from reachable.setAdditive [OF 5 6] show ?thesis .
qed

text \<open>
  In \<open>child_with_sink\<close> an \<open>ERR\<close> entry logged on the logger \<open>"a"\<close>, which is not
  additive, is written to its sink 1 and not to the sink 0 of the root.
\<close>

theorem entry_delivered_iff_witness:
  "reachable posix child_with_sink \<and> 1 < length (heap child_with_sink)
   \<and> renderable posix (filename log_context0) child_with_sink
   \<and> (\<exists>s'. log posix ERR ''m'' log_context0 1 child_with_sink = Some (Inr s')
         \<and> writes child_with_sink 1 < writes s' 1
         \<and> writes s' 0 = writes child_with_sink 0)"
proof -
  let ?s = "child_with_sink"
  have r: "reachable posix ?s" by (rule reachable_child_with_sink)
  have a: "1 < length (heap ?s)" by (simp add: child_with_sink_def)
  have f: "renderable posix (filename log_context0) ?s"
    by (simp add: renderable_def child_with_sink_def)
  from entry_delivered_iff [OF r a f, of ERR "''m''"] obtain s' l where
    s': "log posix ERR ''m'' log_context0 1 ?s = Some (Inr s')" and
    l: "getLevel 1 ?s = Some (Inr l)" and
    iff: "\<forall>k < length (sink_heap ?s).
          (writes ?s k < writes s' k)
          = ((\<exists>x. on_chain (heap ?s) 1 x \<and> k \<in> set (sinks (heap ?s ! x)))
             \<and> level_ge ERR l \<and> level_ge ERR (sink_level (sink_heap ?s ! k)))" and
    stop: "\<forall>b k. k < length (sink_heap ?s) \<and> on_chain (heap ?s) 1 b \<and> \<not> additive (heap ?s ! b)
          \<and> (\<forall>x < length (heap ?s). k \<in> set (sinks (heap ?s ! x))
                \<longrightarrow> strict_ancestor (heap ?s) x b)
          \<longrightarrow> writes s' k = writes ?s k"
    by blast
  have "getLevel 1 ?s = Some (Inr WARN)"
    by (simp add: getLevel.simps child_with_sink_def deref_def basic_logger0_def
        basic_logger2_def addSink_def setAdditive_def)
  with l have lw: "l = WARN" by simp
  have c: "on_chain (heap ?s) 1 1" by (rule on_chain.self)
  have "1 < length (sink_heap ?s)" by (simp add: child_with_sink_def)
  moreover have "1 \<in> set (sinks (heap ?s ! 1))"
    by (simp add: child_with_sink_def addSink_def setAdditive_def basic_logger2_def)
  moreover have "level_ge ERR (sink_level (sink_heap ?s ! 1))"
    by (simp add: child_with_sink_def level_ge_def)
  ultimately have w1: "writes ?s 1 < writes s' 1"
    using iff c lw by (auto simp: level_ge_def)
  have anc: "strict_ancestor (heap ?s) 0 1"
    by (rule strict_ancestor.parent)
      (simp_all add: child_with_sink_def addSink_def setAdditive_def basic_logger2_def)
  have "\<forall>x < length (heap ?s). 0 \<in> set (sinks (heap ?s ! x)) \<longrightarrow> strict_ancestor (heap ?s) x 1"
    using anc
    by (simp add: child_with_sink_def addSink_def setAdditive_def basic_logger2_def
        basic_logger0_def less_Suc_eq)
  moreover have "\<not> additive (heap ?s ! 1)" "0 < length (sink_heap ?s)"
    by (simp_all add: child_with_sink_def addSink_def setAdditive_def)
  ultimately have w0: "writes s' 0 = writes ?s 0" using stop c by blast
  from r a f s' w1 w0 show ?thesis by blast
qed

lemma foldl_shift:
  "foldl (\<lambda>ls v. shift v ls) ls vals
     = ls\<lparr>stream := foldl (\<lambda>out v. put_value v out) (stream ls) vals\<rparr>"
  by (induction vals arbitrary: ls) (simp_all add: shift_def)

lemma put_width0: "width out = 0 \<Longrightarrow> put v out = out\<lparr>buf := buf out @ v\<rparr>"
  by (simp add: put_def padding_def)

lemma put_value_plain:
  assumes "width out = 0" "\<forall>w. v \<noteq> VSetw w"
  shows "buf (put_value v out) = buf out @ render v \<and> width (put_value v out) = 0"
  using assms by (cases v) (simp_all add: put_width0 put_level_def setfill_def)

lemma foldl_put_value_plain:
  "width out = 0 \<Longrightarrow> \<forall>v \<in> set vals. \<forall>w. v \<noteq> VSetw w \<Longrightarrow>
   buf (foldl (\<lambda>out v. put_value v out) out vals) = buf out @ concat (map render vals)"
proof (induction vals arbitrary: out)
  case Nil
  then show ?case by simp
next
  case (Cons v vals)
  from Cons.prems have "buf (put_value v out) = buf out @ render v \<and> width (put_value v out) = 0"
    by (intro put_value_plain) simp_all
  with Cons.IH [of "put_value v out"] Cons.prems(2) show ?case by simp
qed

lemma destroy_stream:
  "destroy P (foldl (\<lambda>ls v. shift v ls) (log_stream lvl context a s) vals) s
     = logEntry P (basic_log_entry4 (clock s) context a lvl
         (buf (foldl (\<lambda>out v. put_value v out) stringstream vals))) a s"
  by (simp add: foldl_shift destroy_def log_stream_def basic_log_entry3_def basic_log_entry4_def
      str_def)

text \<open>
  Claim C2, amended. The destructor of a stream obtained from a logger, with values
  streamed into it of which none sets a field width, submits to the logger one entry,
  whose message is the concatenation of the streamed values, whatever the level. The
  move constructor is the defaulted one: the destructor of the stream moved to submits
  the entry accumulated so far, and the destructor of the stream moved from submits an
  entry as well, with whatever message the moved-from string stream holds. There is no
  copy operation.
\<close>

theorem stream_emits_on_destruction:
  assumes "\<forall>v \<in> set vals. \<forall>w. v \<noteq> VSetw w"
  shows "destroy P (foldl (\<lambda>ls v. shift v ls) (log_stream lvl context a s) vals) s
       = logEntry P (basic_log_entry4 (clock s) context a lvl (concat (map render vals))) a s
    \<and> destroy P (fst (move P ls)) s = destroy P ls s
    \<and> destroy P (snd (move P ls)) s
       = logEntry P ((entry ls)\<lparr>msg := str (moved_from P (stream ls))\<rparr>) (logger (entry ls)) s"
proof -
  have "buf (foldl (\<lambda>out v. put_value v out) stringstream vals) = concat (map render vals)"
    using foldl_put_value_plain [OF _ assms, of stringstream] by (simp add: stringstream_def)
  then show ?thesis
    by (simp add: destroy_stream) (simp add: destroy_def move_def)
qed

lemmas eval_defs = root_with_sink_def posix_def destroy_def log_stream_def shift_def
  basic_log_entry3_def basic_log_entry4_def log_context0_def stringstream_def str_def put_def
  padding_def show_int_def show_nat.simps digit_def logEntry.simps deref_def addSink_def
  basic_logger0_def sink_log_def level_ge_def level_less_def level_le_def formatMessage_def
  basic_formatter_format_def put_level_def getLevel.simps log_def move_def writes_def

text \<open>
  \<open>logger.info() << "x=" << 5 << " done"\<close> on the root logger writes
  \<open>"INFO - x=5 done\n"\<close> to its sink, once.
\<close>

theorem stream_emits_on_destruction_witness:
  "concat (map render [VStr ''x='', VInt 5, VStr '' done'']) = ''x=5 done''
   \<and> destroy posix (foldl (\<lambda>ls v. shift v ls) (log_stream INFO log_context0 0 root_with_sink)
        [VStr ''x='', VInt 5, VStr '' done'']) root_with_sink
     = Some (Inr (root_with_sink\<lparr>sink_heap :=
         [\<lparr>formatter = basic_formatter, sink_level = LogLevel_ALL,
           os = [''INFO - x=5 done'' @ [CHR 0x0A]]\<rparr>]\<rparr>))"
proof -
  have h: "\<forall>v \<in> set [VStr ''x='', VInt 5, VStr '' done'']. \<forall>w. v \<noteq> VSetw w" by simp
  have c: "concat (map render [VStr ''x='', VInt 5, VStr '' done'']) = ''x=5 done''"
    by (simp add: show_int_def show_nat.simps digit_def)
  have "logEntry posix (basic_log_entry4 (clock root_with_sink) log_context0 0 INFO ''x=5 done'')
        0 root_with_sink
     = Some (Inr (root_with_sink\<lparr>sink_heap :=
         [\<lparr>formatter = basic_formatter, sink_level = LogLevel_ALL,
           os = [''INFO - x=5 done'' @ [CHR 0x0A]]\<rparr>]\<rparr>))"
    by (simp add: eval_defs)
  with stream_emits_on_destruction [OF h, of posix INFO log_context0 0 root_with_sink] c
  show ?thesis by simp
qed

text \<open>
  Claim C2 as stated fails: when the stream of the example is moved before its
  destruction, the destructor of the stream moved to and that of the stream moved from
  each write to the sink of the root logger, two writes in all.
\<close>

theorem moved_stream_emits_twice:
  "destroy posix
     (fst (move posix (shift (VStr '' done'') (shift (VInt 5) (shift (VStr ''x='')
        (log_stream INFO log_context0 0 root_with_sink))))))
     root_with_sink
   = Some (Inr (root_with_sink\<lparr>sink_heap :=
       [\<lparr>formatter = basic_formatter, sink_level = LogLevel_ALL,
         os = [''INFO - x=5 done'' @ [CHR 0x0A]]\<rparr>]\<rparr>))
   \<and> destroy posix
     (snd (move posix (shift (VStr '' done'') (shift (VInt 5) (shift (VStr ''x='')
        (log_stream INFO log_context0 0 root_with_sink))))))
     (root_with_sink\<lparr>sink_heap :=
       [\<lparr>formatter = basic_formatter, sink_level = LogLevel_ALL,
         os = [''INFO - x=5 done'' @ [CHR 0x0A]]\<rparr>]\<rparr>)
   = Some (Inr (root_with_sink\<lparr>sink_heap :=
       [\<lparr>formatter = basic_formatter, sink_level = LogLevel_ALL,
         os = [''INFO - x=5 done'' @ [CHR 0x0A], ''INFO - '' @ [CHR 0x0A]]\<rparr>]\<rparr>))
   \<and> writes (root_with_sink\<lparr>sink_heap :=
       [\<lparr>formatter = basic_formatter, sink_level = LogLevel_ALL,
         os = [''INFO - x=5 done'' @ [CHR 0x0A], ''INFO - '' @ [CHR 0x0A]]\<rparr>]\<rparr>) 0 = 2"
  by (simp add: eval_defs)

text \<open>
  Levels below the effective level. In a reachable state every logger has an effective
  level, and for a level \<open>lvl\<close> below it the call \<open>log(lvl, m, context)\<close> and the macro
  \<open>_L3PP_LOG\<close> on a pointer to the logger, which tests the level before it creates
  the stream, leave the state as it is. The destructor of a stream makes no test: the
  entry of a stream created without the guard goes to the sinks of the chain whose own
  level admits \<open>lvl\<close>, whatever the level of the logger.
\<close>

theorem suppressed_log_has_no_effect:
  assumes "reachable P s" "a < length (heap s)"
  shows "\<exists>l. getLevel a s = Some (Inr l)
    \<and> (level_less lvl l \<longrightarrow>
         log P lvl m context a s = Some (Inr s)
         \<and> L3PP_LOG P lvl (by_pointer a) expr context s = Some (Inr s))
    \<and> (renderable P (filename context) s \<longrightarrow>
         (\<exists>s'. destroy P (foldl (\<lambda>ls v. shift v ls) (log_stream lvl context a s) expr) s
                 = Some (Inr s')
            \<and> (\<forall>k < length (sink_heap s).
                  (writes s k < writes s' k)
                  = ((\<exists>x. on_chain (heap s) a x \<and> k \<in> set (sinks (heap s ! x)))
                     \<and> level_ge lvl (sink_level (sink_heap s ! k))))))"
proof -
  from reachable_inv [OF assms(1)] have wf: "heap_wf s" and swf: "sinks_wf s" by simp_all
  from getLevel_total [OF wf assms(2)] obtain l where l: "getLevel a s = Some (Inr l)" by blast
  have 1: "level_less lvl l \<longrightarrow>
         log P lvl m context a s = Some (Inr s)
         \<and> L3PP_LOG P lvl (by_pointer a) expr context s = Some (Inr s)"
    using l by (simp add: log_def L3PP_LOG_def level_le_less)
  have 2: "\<exists>s'. destroy P (foldl (\<lambda>ls v. shift v ls) (log_stream lvl context a s) expr) s
                 = Some (Inr s')
            \<and> (\<forall>k < length (sink_heap s).
                  (writes s k < writes s' k)
                  = ((\<exists>x. on_chain (heap s) a x \<and> k \<in> set (sinks (heap s ! x)))
                     \<and> level_ge lvl (sink_level (sink_heap s ! k))))"
    if f: "renderable P (filename context) s"
  proof -
    let ?e = "basic_log_entry4 (clock s) context a lvl
         (buf (foldl (\<lambda>out v. put_value v out) stringstream expr))"
    have "logger ?e = a" "renderable P (filename ?e) s"
      using f by (simp_all add: basic_log_entry4_def)
    from logEntry_delivers [OF wf swf assms(2) this] obtain s' where
      s': "logEntry P ?e a s = Some (Inr s')" and d: "delivered_chain ?e a s s'" by blast
    have "(writes s k < writes s' k)
          = ((\<exists>x. on_chain (heap s) a x \<and> k \<in> set (sinks (heap s ! x)))
             \<and> level_ge lvl (sink_level (sink_heap s ! k)))"
      if "k < length (sink_heap s)" for k
      using delivered_chain_iff [OF wf assms(2) d that] by (simp add: basic_log_entry4_def)
    with s' show ?thesis by (auto simp: destroy_stream)
  qed
  from l 1 2 show ?thesis by blast
qed

text \<open>
  The root logger has the level \<open>WARN\<close>: a \<open>DEBUG\<close> message and a \<open>DEBUG\<close> use of the
  macro leave \<open>root_with_sink\<close> unchanged.
\<close>

theorem suppressed_log_has_no_effect_witness:
  "reachable posix root_with_sink \<and> 0 < length (heap root_with_sink)
   \<and> getLevel 0 root_with_sink = Some (Inr WARN) \<and> level_less DEBUG WARN
   \<and> log posix DEBUG ''m'' log_context0 0 root_with_sink = Some (Inr root_with_sink)
   \<and> L3PP_LOG posix DEBUG (by_pointer 0) [VStr ''m''] log_context0 root_with_sink
       = Some (Inr root_with_sink)"
proof -
  have r: "reachable posix root_with_sink" by (rule reachable_root_with_sink)
  have a: "0 < length (heap root_with_sink)" by (simp add: root_with_sink_def)
  have g: "getLevel 0 root_with_sink = Some (Inr WARN)"
    by (simp add: getLevel.simps root_with_sink_def deref_def addSink_def basic_logger0_def)
  have d: "level_less DEBUG WARN" by (simp add: level_less_def)
  from suppressed_log_has_no_effect [OF r a, of DEBUG "''m''" log_context0 "[VStr ''m'']"] g d
  have "log posix DEBUG ''m'' log_context0 0 root_with_sink = Some (Inr root_with_sink)
    \<and> L3PP_LOG posix DEBUG (by_pointer 0) [VStr ''m''] log_context0 root_with_sink
       = Some (Inr root_with_sink)"
    by auto
  with r a g d show ?thesis by simp
qed

text \<open>
  Claim C4. An entry below the effective level of its logger is to leave no trace,
  by the message operation and by the stream operation alike. The code does not do
  this for the stream: on the root logger, of level \<open>WARN\<close>,
  \<open>root->debug() << "x"\<close> writes \<open>"DEBUG - x\n"\<close> to the sink of the root, the
  destructor of the stream calling \<open>logEntry\<close> without the test that \<open>log(level, msg,
  context)\<close> makes.
\<close>

theorem unguarded_stream_not_suppressed:
  "getLevel 0 root_with_sink = Some (Inr WARN) \<and> level_less DEBUG WARN
   \<and> destroy posix (shift (VStr ''x'') (log_stream DEBUG log_context0 0 root_with_sink))
        root_with_sink
     = Some (Inr (root_with_sink\<lparr>sink_heap :=
         [\<lparr>formatter = basic_formatter, sink_level = LogLevel_ALL,
           os = [''DEBUG - x'' @ [CHR 0x0A]]\<rparr>]\<rparr>))
   \<and> writes root_with_sink 0 = 0
   \<and> writes (root_with_sink\<lparr>sink_heap :=
         [\<lparr>formatter = basic_formatter, sink_level = LogLevel_ALL,
           os = [''DEBUG - x'' @ [CHR 0x0A]]\<rparr>]\<rparr>) 0 = 1"
  by (simp add: eval_defs)

text \<open>
  Claim C1. An entry of level \<open>lvl\<close> submitted to a logger is to reach a sink only if
  \<open>lvl\<close> is not below the effective level of the logger. The code does not do this for
  an entry submitted by a stream: on the root logger, whose effective level is \<open>WARN\<close>,
  the entry of \<open>root->info() << "y"\<close>, of level \<open>INFO\<close>, is written to the sink of
  the root, which is on the chain of the root.
\<close>

theorem stream_entry_below_level_delivered:
  "getLevel 0 root_with_sink = Some (Inr WARN) \<and> \<not> level_ge INFO WARN
   \<and> on_chain (heap root_with_sink) 0 0 \<and> 0 \<in> set (sinks (heap root_with_sink ! 0))
   \<and> level_ge INFO (sink_level (sink_heap root_with_sink ! 0))
   \<and> destroy posix (shift (VStr ''y'') (log_stream INFO log_context0 0 root_with_sink))
        root_with_sink
     = Some (Inr (root_with_sink\<lparr>sink_heap :=
         [\<lparr>formatter = basic_formatter, sink_level = LogLevel_ALL,
           os = [''INFO - y'' @ [CHR 0x0A]]\<rparr>]\<rparr>))
   \<and> writes root_with_sink 0
       < writes (root_with_sink\<lparr>sink_heap :=
           [\<lparr>formatter = basic_formatter, sink_level = LogLevel_ALL,
             os = [''INFO - y'' @ [CHR 0x0A]]\<rparr>]\<rparr>) 0"
proof -
  have "on_chain (heap root_with_sink) 0 0" by (rule on_chain.self)
  then show ?thesis by (simp add: eval_defs)
qed

text \<open>
  Claim C5, amended. In a reachable state \<open>setLevel(INHERIT)\<close> on the root leaves the
  state, and so the stored level of the root, as it is. A message logged with the
  level \<open>INHERIT\<close> is not ignored: \<open>INHERIT\<close> is the greatest level, so the call passes
  the test of the logger and of every sink, and every sink on the chain of the logger
  receives a write (provided every formatter in use is defined on the file name).
\<close>

theorem inherit_level_handling:
  assumes "reachable P s" "a < length (heap s)" "renderable P (filename context) s"
  shows "(\<forall>r. root_logger s = Some r \<longrightarrow> invoke (setLevel INHERIT) r s = Inr s)
    \<and> (\<exists>s'. log P INHERIT m context a s = Some (Inr s')
          \<and> (\<forall>k < length (sink_heap s).
                (writes s k < writes s' k)
                = (\<exists>x. on_chain (heap s) a x \<and> k \<in> set (sinks (heap s ! x)))))"
proof -
  from reachable_inv [OF assms(1)] have wf: "heap_wf s" and swf: "sinks_wf s"
    and reg: "registry_wf s" by simp_all
  have 1: "invoke (setLevel INHERIT) r s = Inr s" if "root_logger s = Some r" for r
  proof -
    from reg that have "r < length (heap s)" "parent (heap s ! r) = None"
      unfolding registry_wf_def by blast+
    then show ?thesis by (simp add: invoke_def deref_def setLevel_def)
  qed
  from log_effect [OF wf swf assms(2,3), of INHERIT m] level_less_INHERIT
  obtain s' where s': "log P INHERIT m context a s = Some (Inr s')"
    and d: "delivered_chain (basic_log_entry4 (clock s) context a INHERIT m) a s s'"
    by blast
  have "(writes s k < writes s' k)
      = (\<exists>x. on_chain (heap s) a x \<and> k \<in> set (sinks (heap s ! x)))"
    if "k < length (sink_heap s)" for k
    using delivered_chain_iff [OF wf assms(2) d that] level_ge_INHERIT
    by (simp add: basic_log_entry4_def)
  with s' 1 show ?thesis by blast
qed

text \<open>
  On \<open>root_with_sink\<close>: \<open>setLevel(INHERIT)\<close> on the root changes nothing, and a message
  of level \<open>INHERIT\<close> reaches the sink.
\<close>

theorem inherit_level_handling_witness:
  "reachable posix root_with_sink \<and> 0 < length (heap root_with_sink)
   \<and> renderable posix (filename log_context0) root_with_sink
   \<and> root_logger root_with_sink = Some 0
   \<and> invoke (setLevel INHERIT) 0 root_with_sink = Inr root_with_sink
   \<and> (\<exists>s'. log posix INHERIT ''m'' log_context0 0 root_with_sink = Some (Inr s')
         \<and> writes root_with_sink 0 < writes s' 0)"
proof -
  let ?s = root_with_sink
  have r: "reachable posix ?s" by (rule reachable_root_with_sink)
  have a: "0 < length (heap ?s)" by (simp add: root_with_sink_def)
  have f: "renderable posix (filename log_context0) ?s"
    by (simp add: renderable_def root_with_sink_def)
  have ro: "root_logger ?s = Some 0" by (simp add: root_with_sink_def)
  from inherit_level_handling [OF r a f, of "''m''"] ro obtain s' where
    1: "invoke (setLevel INHERIT) 0 ?s = Inr ?s" and
    2: "log posix INHERIT ''m'' log_context0 0 ?s = Some (Inr s')" and
    3: "\<forall>k < length (sink_heap ?s).
          (writes ?s k < writes s' k)
          = (\<exists>x. on_chain (heap ?s) 0 x \<and> k \<in> set (sinks (heap ?s ! x)))"
    by blast
  have "on_chain (heap ?s) 0 0" by (rule on_chain.self)
  moreover have "0 \<in> set (sinks (heap ?s ! 0))" "0 < length (sink_heap ?s)"
    by (simp_all add: root_with_sink_def addSink_def)
  ultimately have "writes ?s 0 < writes s' 0" using 3 by blast
  with r a f ro 1 2 show ?thesis by blast
qed

text \<open>
  Claim C5 as stated fails: a message logged with level \<open>INHERIT\<close> on the root logger
  is written to its sink, as \<open>"??? - m\n"\<close>.
\<close>

theorem inherit_message_delivered:
  "log posix INHERIT ''m'' log_context0 0 root_with_sink
   = Some (Inr (root_with_sink\<lparr>sink_heap :=
       [\<lparr>formatter = basic_formatter, sink_level = LogLevel_ALL,
         os = [''??? - m'' @ [CHR 0x0A]]\<rparr>]\<rparr>))
   \<and> writes root_with_sink 0 = 0
   \<and> writes (root_with_sink\<lparr>sink_heap :=
       [\<lparr>formatter = basic_formatter, sink_level = LogLevel_ALL,
         os = [''??? - m'' @ [CHR 0x0A]]\<rparr>]\<rparr>) 0 = 1"
  by (simp add: eval_defs)

end
